theory Spec2Isabelle
  imports Complex_Main "HOL-Library.AList" "HOL-Library.Sublist"
begin

section \<open>Values, exceptions and the command executor\<close>

text \<open>
  The module \<^verbatim>\<open>python/vyos/utils/system.py\<close> is a set of helpers around operating-system
  facilities. Its functions have no state of their own: everything they observe or change
  lives behind \<^verbatim>\<open>subprocess.run\<close> and the other collaborators. The model therefore threads
  an abstract world \<open>'w\<close> through every call, and a Python exception is a value: a
  computation maps a world to a result (\<open>Raise\<close> or \<open>Return\<close>) and the world it leaves.

  A Python \<^verbatim>\<open>str\<close> is represented by the bytes of its UTF-8 encoding (an Isabelle
  \<open>string\<close>); equality, concatenation and the substring test agree with Python's on that
  representation. A \<^verbatim>\<open>bytes\<close> object is the list of its bytes.
\<close>

datatype exn =
  FileNotFoundError | PermissionError | OSError | UnicodeDecodeError
  | TypeError | ValueError | ZeroDivisionError | OverflowError

datatype 'a result = Raise exn | Return 'a

type_synonym str = string
type_synonym bytes = string

text \<open>The object \<^verbatim>\<open>subprocess.run\<close> returns; only these two attributes are read.\<close>

record CompletedProcess =
  stdout :: bytes
  returncode :: int

text \<open>
  \<^verbatim>\<open>run(args, capture_output=...)\<close>: the argument list, the capture flag and the world
  before; it raises (the program is missing, not executable, ...) or returns a completed
  process, and leaves a world. A non-zero exit status is not an exception: the source
  never passes \<^verbatim>\<open>check=True\<close>.
\<close>

type_synonym 'w executor = "str list \<Rightarrow> bool \<Rightarrow> 'w \<Rightarrow> CompletedProcess result \<times> 'w"

subsection \<open>\<^verbatim>\<open>bytes.decode()\<close>: strict UTF-8\<close>

definition cont_byte :: "char \<Rightarrow> bool" where
  "cont_byte c = (128 \<le> (of_char c :: nat) \<and> (of_char c :: nat) \<le> 191)"

text \<open>
  The well-formed byte sequences of UTF-8 (no overlong forms, no surrogates, nothing
  above U+10FFFF), which is what the strict decoder accepts.
\<close>

fun valid_utf8 :: "bytes \<Rightarrow> bool" where
  "valid_utf8 [] = True"
| "valid_utf8 [a] = ((of_char a :: nat) < 128)"
| "valid_utf8 [a, b] =
     (let x = (of_char a :: nat) in
      if x < 128 then valid_utf8 [b]
      else 194 \<le> x \<and> x \<le> 223 \<and> cont_byte b)"
| "valid_utf8 [a, b, c] =
     (let x = (of_char a :: nat); y = (of_char b :: nat) in
      if x < 128 then valid_utf8 [b, c]
      else if 194 \<le> x \<and> x \<le> 223 then cont_byte b \<and> valid_utf8 [c]
      else 224 \<le> x \<and> x \<le> 239 \<and> cont_byte b \<and> cont_byte c
           \<and> (x = 224 \<longrightarrow> 160 \<le> y) \<and> (x = 237 \<longrightarrow> y \<le> 159))"
| "valid_utf8 (a # b # c # d # rest) =
     (let x = (of_char a :: nat); y = (of_char b :: nat) in
      if x < 128 then valid_utf8 (b # c # d # rest)
      else if 194 \<le> x \<and> x \<le> 223 then cont_byte b \<and> valid_utf8 (c # d # rest)
      else if 224 \<le> x \<and> x \<le> 239 then
        cont_byte b \<and> cont_byte c \<and> (x = 224 \<longrightarrow> 160 \<le> y) \<and> (x = 237 \<longrightarrow> y \<le> 159)
        \<and> valid_utf8 (d # rest)
      else 240 \<le> x \<and> x \<le> 244 \<and> cont_byte b \<and> cont_byte c \<and> cont_byte d
           \<and> (x = 240 \<longrightarrow> 144 \<le> y) \<and> (x = 244 \<longrightarrow> y \<le> 143)
           \<and> valid_utf8 rest)"

definition decode :: "bytes \<Rightarrow> str result" where
  "decode bs = (if valid_utf8 bs then Return bs else Raise UnicodeDecodeError)"

subsection \<open>\<^verbatim>\<open>str(value)\<close> on an integer\<close>

definition digit_char :: "nat \<Rightarrow> char" where
  "digit_char d = ''0123456789'' ! d"

fun str_nat :: "nat \<Rightarrow> str" where
  "str_nat n = (if n < 10 then [digit_char n] else str_nat (n div 10) @ [digit_char (n mod 10)])"

declare str_nat.simps [simp del]

definition str_int :: "int \<Rightarrow> str" where
  "str_int i = (if i < 0 then CHR ''-'' # str_nat (nat (- i)) else str_nat (nat i))"

text \<open>
  The argument of \<^verbatim>\<open>sysctl_write\<close> is annotated \<^verbatim>\<open>str | int\<close>; \<open>to_str\<close> is the
  conversion of its first two lines, which leaves a string as it is and calls
  \<^verbatim>\<open>str(value)\<close> on an integer. That call raises \<^verbatim>\<open>ValueError\<close> when the number has
  more decimal digits (the sign not counted) than the interpreter's limit on such
  conversions, which is 4300 by default; the module does not change the limit.
\<close>

datatype pyval = PyStr str | PyInt int

definition int_max_str_digits :: nat where
  "int_max_str_digits = 4300"

fun to_str :: "pyval \<Rightarrow> str result" where
  "to_str (PyStr s) = Return s"
| "to_str (PyInt n) =
     (if int_max_str_digits < length (str_nat (nat \<bar>n\<bar>)) then Raise ValueError
      else Return (str_int n))"

section \<open>The sysctl functions\<close>

definition sysctl_read :: "'w executor \<Rightarrow> str \<Rightarrow> 'w \<Rightarrow> str result \<times> 'w" where
  "sysctl_read run name w =
     (case run [''sysctl'', ''-nb'', name] True w of
        (Raise e, w1) \<Rightarrow> (Raise e, w1)
      | (Return tmp, w1) \<Rightarrow> (decode (stdout tmp), w1))"

definition sysctl_write :: "'w executor \<Rightarrow> str \<Rightarrow> pyval \<Rightarrow> 'w \<Rightarrow> bool result \<times> 'w" where
  "sysctl_write run name val w =
     (case to_str val of
        Raise e \<Rightarrow> (Raise e, w)
      | Return value \<Rightarrow>
          (case sysctl_read run name w of
             (Raise e, w1) \<Rightarrow> (Raise e, w1)
           | (Return cur, w1) \<Rightarrow>
               if cur = value then (Return True, w1)
               else
                 (case run [''sysctl'', ''-wq'', name @ ''='' @ value] False w1 of
                    (Raise e, w2) \<Rightarrow> (Raise e, w2)
                  | (Return p, w2) \<Rightarrow>
                      if returncode p \<noteq> 0 then (Return False, w2)
                      else
                        (case sysctl_read run name w2 of
                           (Raise e, w3) \<Rightarrow> (Raise e, w3)
                         | (Return new, w3) \<Rightarrow>
                             if new = value then (Return True, w3) else (Return False, w3)))))"

text \<open>
  A \<^verbatim>\<open>dict\<close> is an association list in insertion order; \<open>AList.update\<close> is the
  assignment \<^verbatim>\<open>d[k] = v\<close> (an existing key keeps its place, a new one goes last).
  The first loop of \<^verbatim>\<open>sysctl_apply\<close> fills \<^verbatim>\<open>sysctl_original\<close>:
\<close>

type_synonym dict = "(str \<times> pyval) list"

fun snapshot :: "'w executor \<Rightarrow> str list \<Rightarrow> dict \<Rightarrow> 'w \<Rightarrow> dict result \<times> 'w" where
  "snapshot run [] sysctl_original w = (Return sysctl_original, w)"
| "snapshot run (key_name # keys) sysctl_original w =
     (case sysctl_read run key_name w of
        (Raise e, w1) \<Rightarrow> (Raise e, w1)
      | (Return v, w1) \<Rightarrow> snapshot run keys (AList.update key_name (PyStr v) sysctl_original) w1)"

text \<open>
  The second loop (\<open>apply_writes\<close>) and the function itself are mutually recursive: the
  loop calls \<^verbatim>\<open>sysctl_apply(sysctl_original, revert=False)\<close> when a write fails under
  \<^verbatim>\<open>revert\<close>.
\<close>

function apply_writes :: "'w executor \<Rightarrow> dict \<Rightarrow> bool \<Rightarrow> dict \<Rightarrow> 'w \<Rightarrow> bool result \<times> 'w"
  and sysctl_apply :: "'w executor \<Rightarrow> dict \<Rightarrow> bool \<Rightarrow> 'w \<Rightarrow> bool result \<times> 'w" where
  "apply_writes run sysctl_original revert [] w = (Return True, w)"
| "apply_writes run sysctl_original revert ((key_name, val) # items) w =
     (case sysctl_write run key_name val w of
        (Raise e, w1) \<Rightarrow> (Raise e, w1)
      | (Return ok, w1) \<Rightarrow>
          if \<not> ok then
            (if revert then
               (case sysctl_apply run sysctl_original False w1 of
                  (Raise e, w2) \<Rightarrow> (Raise e, w2)
                | (Return _, w2) \<Rightarrow> (Return False, w2))
             else (Return False, w1))
          else apply_writes run sysctl_original revert items w1)"
| "sysctl_apply run sysctl_dict revert w =
     (case snapshot run (map fst sysctl_dict) [] w of
        (Raise e, w1) \<Rightarrow> (Raise e, w1)
      | (Return sysctl_original, w1) \<Rightarrow> apply_writes run sysctl_original revert sysctl_dict w1)"
  by pat_completeness auto
termination
  by (relation "inv_image (less_than <*lex*> less_than)
        (\<lambda>x. case x of
           Inl (run, orig, revert, items, w) \<Rightarrow> (if revert then 1 else 0 :: nat, length items)
         | Inr (run, d, revert, w) \<Rightarrow> (if revert then 1 else 0, Suc (length d)))") auto

section \<open>Observing the executor\<close>

text \<open>
  What the functions ask of the executor is observed the way a test double does it: the
  executor \<open>logged run\<close> behaves as \<open>run\<close> on the world and appends every call it
  receives (argument list and capture flag) to a log kept beside the world.
\<close>

type_synonym call = "str list \<times> bool"

definition logged :: "'w executor \<Rightarrow> (call list \<times> 'w) executor" where
  "logged run args capture_output s =
     (case run args capture_output (snd s) of
        (r, w1) \<Rightarrow> (r, (fst s @ [(args, capture_output)], w1)))"

text \<open>The two calls the sysctl functions make: the query of a key and the assignment.\<close>

abbreviation query :: "str \<Rightarrow> call" where
  "query name \<equiv> ([''sysctl'', ''-nb'', name], True)"

abbreviation assign :: "str \<Rightarrow> str \<Rightarrow> call" where
  "assign name value \<equiv> ([''sysctl'', ''-wq'', name @ ''='' @ value], False)"

text \<open>
  \<open>about_keys keys c\<close>: the call \<open>c\<close> is a query of one of \<open>keys\<close>, or an assignment
  whose argument starts with one of them and \<^verbatim>\<open>=\<close>. \<open>calls_about keys s s'\<close>: the log of
  \<open>s'\<close> extends the log of \<open>s\<close> by such calls only.
\<close>

fun about_keys :: "str list \<Rightarrow> call \<Rightarrow> bool" where
  "about_keys keys (args, capture_output) =
     (case args of
        [prog, opt, arg] \<Rightarrow>
          prog = ''sysctl'' \<and>
          ((opt = ''-nb'' \<and> capture_output \<and> arg \<in> set keys) \<or>
           (opt = ''-wq'' \<and> \<not> capture_output \<and> list_ex (\<lambda>k. prefix (k @ ''='') arg) keys))
      | _ \<Rightarrow> False)"

definition calls_about :: "str list \<Rightarrow> call list \<times> 'w \<Rightarrow> call list \<times> 'w \<Rightarrow> bool" where
  "calls_about keys s s' = (\<exists>new. fst s' = fst s @ new \<and> list_all (about_keys keys) new)"

section \<open>Reference loops\<close>

text \<open>
  Three loops that the statements below compare \<^verbatim>\<open>sysctl_apply\<close> with. None of them is
  part of the source. \<open>write_loop\<close> writes the items in order and stops with \<open>False\<close> at
  the first write that fails, with no rollback; \<open>writes_succeed run items w w'\<close> says that
  every write of \<open>items\<close> returns \<open>True\<close>, taking the world from \<open>w\<close> to \<open>w'\<close>;
  \<open>read_each\<close> reads the keys in order and returns the values.
\<close>

fun write_loop :: "'w executor \<Rightarrow> dict \<Rightarrow> 'w \<Rightarrow> bool result \<times> 'w" where
  "write_loop run [] w = (Return True, w)"
| "write_loop run ((key_name, val) # items) w =
     (case sysctl_write run key_name val w of
        (Raise e, w1) \<Rightarrow> (Raise e, w1)
      | (Return ok, w1) \<Rightarrow> if \<not> ok then (Return False, w1) else write_loop run items w1)"

fun writes_succeed :: "'w executor \<Rightarrow> dict \<Rightarrow> 'w \<Rightarrow> 'w \<Rightarrow> bool" where
  "writes_succeed run [] w w' = (w' = w)"
| "writes_succeed run ((key_name, val) # items) w w' =
     (case sysctl_write run key_name val w of
        (Return True, w1) \<Rightarrow> writes_succeed run items w1 w'
      | _ \<Rightarrow> False)"

fun read_each :: "'w executor \<Rightarrow> str list \<Rightarrow> 'w \<Rightarrow> str list result \<times> 'w" where
  "read_each run [] w = (Return [], w)"
| "read_each run (key_name # keys) w =
     (case sysctl_read run key_name w of
        (Raise e, w1) \<Rightarrow> (Raise e, w1)
      | (Return v, w1) \<Rightarrow>
          (case read_each run keys w1 of
             (Raise e, w2) \<Rightarrow> (Raise e, w2)
           | (Return vs, w2) \<Rightarrow> (Return (v # vs), w2)))"

text \<open>
  The number a string of decimal digits denotes, and the digits themselves.
  \<open>decimal_form s m\<close>: \<open>s\<close> is the decimal numeral of \<open>m\<close>, that is a non-empty string
  of decimal digits that denotes \<open>m\<close> and starts with \<^verbatim>\<open>0\<close> only when it is \<^verbatim>\<open>0\<close>
  itself.
\<close>

definition decimal_value :: "str \<Rightarrow> nat" where
  "decimal_value s = foldl (\<lambda>a c. 10 * a + (of_char c - 48)) 0 s"

definition is_digit :: "char \<Rightarrow> bool" where
  "is_digit c = (48 \<le> (of_char c :: nat) \<and> (of_char c :: nat) \<le> 57)"

definition decimal_form :: "str \<Rightarrow> nat \<Rightarrow> bool" where
  "decimal_form s m =
     (s \<noteq> [] \<and> list_all is_digit s \<and> decimal_value s = m \<and> (hd s = CHR ''0'' \<longrightarrow> s = ''0''))"

section \<open>Secure boot\<close>

text \<open>
  \<^verbatim>\<open>'enabled' in tmp\<close> is the substring test \<open>str_in\<close>. The collaborators
  \<^verbatim>\<open>is_uefi_system\<close> (of \<^verbatim>\<open>vyos.utils.boot\<close>) and \<^verbatim>\<open>cmd\<close> (of \<^verbatim>\<open>vyos.utils.process\<close>)
  are parameters: each may raise, and each may change the world.
\<close>

fun str_in :: "str \<Rightarrow> str \<Rightarrow> bool" where
  "str_in sub [] = (sub = [])"
| "str_in sub (c # cs) = (prefix sub (c # cs) \<or> str_in sub cs)"

definition get_secure_boot_state ::
  "('w \<Rightarrow> bool result \<times> 'w) \<Rightarrow> (str \<Rightarrow> 'w \<Rightarrow> str result \<times> 'w) \<Rightarrow> 'w \<Rightarrow> bool result \<times> 'w" where
  "get_secure_boot_state is_uefi_system cmd w =
     (case is_uefi_system w of
        (Raise e, w1) \<Rightarrow> (Raise e, w1)
      | (Return uefi, w1) \<Rightarrow>
          if \<not> uefi then (Return False, w1)
          else
            (case cmd ''mokutil --sb-state'' w1 of
               (Raise e, w2) \<Rightarrow> (Raise e, w2)
             | (Return tmp, w2) \<Rightarrow> (Return (str_in ''enabled'' tmp), w2)))"

section \<open>Load averages\<close>

subsection \<open>Python floats\<close>

text \<open>
  A \<^verbatim>\<open>float\<close> is an IEEE 754 binary64 value: a sign and a magnitude (a rational, so that
  \<open>Finite True 0\<close> is the negative zero), an infinity, or a NaN. \<open>round_mag\<close> rounds a
  non-negative rational to the nearest binary64 magnitude, ties to even: the exponent is
  that of the value but at least \<open>-1022\<close> (below it the values are subnormal), the unit
  in the last place is 52 binary places below, and a result of \<open>2 ^ 1024\<close> or more is an
  overflow (\<open>None\<close>).
\<close>

datatype pyfloat = Finite bool rat | Infinite bool | NaN

definition pow2 :: "int \<Rightarrow> rat" where
  "pow2 e = (if 0 \<le> e then 2 ^ nat e else 1 / 2 ^ nat (- e))"

fun bit_length :: "nat \<Rightarrow> nat" where
  "bit_length n = (if n = 0 then 0 else Suc (bit_length (n div 2)))"

declare bit_length.simps [simp del]

definition floor_log2 :: "rat \<Rightarrow> int" where
  "floor_log2 a =
     (if 1 \<le> a then int (bit_length (nat \<lfloor>a\<rfloor>)) - 1
      else - int (bit_length (nat (\<lceil>1 / a\<rceil> - 1))))"

definition round_even :: "rat \<Rightarrow> int" where
  "round_even x =
     (let f = \<lfloor>x\<rfloor>; d = x - of_int f in
      if d < 1 / 2 then f
      else if 1 / 2 < d then f + 1
      else if even f then f else f + 1)"

definition round_mag :: "rat \<Rightarrow> rat option" where
  "round_mag a =
     (if a = 0 then Some 0
      else
        (let e = max (floor_log2 a) (- 1022);
             ulp = pow2 (e - 52);
             y = of_int (round_even (a / ulp)) * ulp in
         if pow2 1024 \<le> y then None else Some y))"

definition round_binary64 :: "bool \<Rightarrow> rat \<Rightarrow> pyfloat" where
  "round_binary64 neg a = (case round_mag a of None \<Rightarrow> Infinite neg | Some y \<Rightarrow> Finite neg y)"

text \<open>
  \<^verbatim>\<open>float(s)\<close> for a string of digits and dots, the only strings the groups of the
  pattern can hold (\<open>re_search_groups\<close> below): digits with at most one dot and at least
  one digit, correctly rounded; anything else of that alphabet raises \<^verbatim>\<open>ValueError\<close>.
  Strings with other characters are outside what the function is used on. \<open>float_of_int\<close> is the
  conversion of the integer operand of a division (\<^verbatim>\<open>OverflowError\<close> when it is out of
  range), \<open>float_div\<close> the division of two floats, which raises on a zero divisor, and
  \<open>truediv\<close> the operator \<^verbatim>\<open>/\<close> on a float and an \<^verbatim>\<open>int\<close>.
\<close>

definition numchar :: "char \<Rightarrow> bool" where
  "numchar c = (is_digit c \<or> c = CHR ''.'')"

definition float_of_str :: "str \<Rightarrow> pyfloat result" where
  "float_of_str s =
     (let ip = takeWhile is_digit s; r = dropWhile is_digit s;
          fp = (case r of [] \<Rightarrow> [] | c # t \<Rightarrow> t) in
      if (r = [] \<or> hd r = CHR ''.'') \<and> list_all is_digit fp \<and> ip @ fp \<noteq> []
      then Return (round_binary64 False (of_nat (decimal_value (ip @ fp)) / 10 ^ length fp))
      else Raise ValueError)"

definition float_of_int :: "int \<Rightarrow> pyfloat result" where
  "float_of_int i =
     (case round_mag \<bar>of_int i\<bar> of
        None \<Rightarrow> Raise OverflowError
      | Some y \<Rightarrow> Return (Finite (i < 0) y))"

fun float_div :: "pyfloat \<Rightarrow> pyfloat \<Rightarrow> pyfloat result" where
  "float_div a (Finite t y) =
     (if y = 0 then Raise ZeroDivisionError
      else
        (case a of
           Finite s x \<Rightarrow> Return (round_binary64 (s \<noteq> t) (x / y))
         | Infinite s \<Rightarrow> Return (Infinite (s \<noteq> t))
         | NaN \<Rightarrow> Return NaN))"
| "float_div (Finite s x) (Infinite t) = Return (Finite (s \<noteq> t) 0)"
| "float_div (Infinite s) (Infinite t) = Return NaN"
| "float_div NaN (Infinite t) = Return NaN"
| "float_div a NaN = Return NaN"

definition truediv :: "pyfloat \<Rightarrow> int \<Rightarrow> pyfloat result" where
  "truediv a i = (case float_of_int i of Raise e \<Rightarrow> Raise e | Return b \<Rightarrow> float_div a b)"

subsection \<open>The pattern\<close>

text \<open>
  \<^verbatim>\<open>\s\<close> matches the white space of Unicode: ten ASCII characters, and nineteen others
  that are two or three bytes each in UTF-8. \<open>space_len s\<close> is the number of bytes of the
  white-space character \<open>s\<close> starts with, 0 when it starts with none.

  The pattern is \<^verbatim>\<open>\s*([0-9\.]+)\s+([0-9\.]+)\s+([0-9\.]+)\s*\<close>. The two character
  classes are disjoint, so a greedy match from a fixed position can only take every run
  whole: giving a character back leaves the next item in front of a character of the
  wrong class. \<open>match_at\<close> is that match, and \<open>re_search\<close> tries the positions from left to
  right as \<^verbatim>\<open>re.search\<close> does (a position inside a multi-byte character never matches:
  its byte is neither a digit, a dot, nor the start of a white-space character).
\<close>

definition ascii_space :: "char \<Rightarrow> bool" where
  "ascii_space c = ((of_char c :: nat) \<in> {9, 10, 11, 12, 13, 28, 29, 30, 31, 32})"

definition unicode_spaces :: "str list" where
  "unicode_spaces =
     [[CHR 0xC2, CHR 0x85], [CHR 0xC2, CHR 0xA0], [CHR 0xE1, CHR 0x9A, CHR 0x80],
      [CHR 0xE2, CHR 0x80, CHR 0x80], [CHR 0xE2, CHR 0x80, CHR 0x81],
      [CHR 0xE2, CHR 0x80, CHR 0x82], [CHR 0xE2, CHR 0x80, CHR 0x83],
      [CHR 0xE2, CHR 0x80, CHR 0x84], [CHR 0xE2, CHR 0x80, CHR 0x85],
      [CHR 0xE2, CHR 0x80, CHR 0x86], [CHR 0xE2, CHR 0x80, CHR 0x87],
      [CHR 0xE2, CHR 0x80, CHR 0x88], [CHR 0xE2, CHR 0x80, CHR 0x89],
      [CHR 0xE2, CHR 0x80, CHR 0x8A], [CHR 0xE2, CHR 0x80, CHR 0xA8],
      [CHR 0xE2, CHR 0x80, CHR 0xA9], [CHR 0xE2, CHR 0x80, CHR 0xAF],
      [CHR 0xE2, CHR 0x81, CHR 0x9F], [CHR 0xE3, CHR 0x80, CHR 0x80]]"

definition space_len :: "str \<Rightarrow> nat" where
  "space_len s =
     (case s of
        [] \<Rightarrow> 0
      | c # t \<Rightarrow>
          if ascii_space c then 1
          else (case filter (\<lambda>u. prefix u s) unicode_spaces of [] \<Rightarrow> 0 | u # us \<Rightarrow> length u))"

function skip_spaces :: "str \<Rightarrow> str" where
  "skip_spaces s = (if space_len s = 0 then s else skip_spaces (drop (space_len s) s))"
  by pat_completeness auto
termination
  by (relation "measure length") (auto simp: space_len_def split: list.splits)

declare skip_spaces.simps [simp del]

definition match_at :: "str \<Rightarrow> (str \<times> str \<times> str) option" where
  "match_at s =
     (let s1 = skip_spaces s;
          one = takeWhile numchar s1; s2 = dropWhile numchar s1;
          s3 = skip_spaces s2;
          five = takeWhile numchar s3; s4 = dropWhile numchar s3;
          s5 = skip_spaces s4;
          fifteen = takeWhile numchar s5 in
      if one \<noteq> [] \<and> s3 \<noteq> s2 \<and> five \<noteq> [] \<and> s5 \<noteq> s4 \<and> fifteen \<noteq> []
      then Some (one, five, fifteen) else None)"

fun re_search :: "str \<Rightarrow> (str \<times> str \<times> str) option" where
  "re_search [] = match_at []"
| "re_search (c # cs) = (case match_at (c # cs) of Some m \<Rightarrow> Some m | None \<Rightarrow> re_search cs)"

text \<open>
  The collaborators \<^verbatim>\<open>read_file\<close> (of \<^verbatim>\<open>vyos.utils.file\<close>) and \<^verbatim>\<open>get_core_count\<close> (of
  \<^verbatim>\<open>vyos.utils.cpu\<close>) are parameters. Subscripting the result of a failed search raises
  \<^verbatim>\<open>TypeError\<close>, after \<^verbatim>\<open>get_core_count\<close> has run. The dictionary is the association list
  of the keys 1, 5 and 15 in insertion order.
\<close>

definition get_load_averages ::
  "(str \<Rightarrow> 'w \<Rightarrow> str result \<times> 'w) \<Rightarrow> ('w \<Rightarrow> int result \<times> 'w) \<Rightarrow> 'w
     \<Rightarrow> (int \<times> pyfloat) list result \<times> 'w" where
  "get_load_averages read_file get_core_count w =
     (case read_file ''/proc/loadavg'' w of
        (Raise e, w1) \<Rightarrow> (Raise e, w1)
      | (Return data, w1) \<Rightarrow>
          (let matches = re_search data in
           case get_core_count w1 of
             (Raise e, w2) \<Rightarrow> (Raise e, w2)
           | (Return core_count, w2) \<Rightarrow>
               (case matches of
                  None \<Rightarrow> (Raise TypeError, w2)
                | Some (one, five, fifteen) \<Rightarrow>
                    (case float_of_str one of
                       Raise e \<Rightarrow> (Raise e, w2)
                     | Return f1 \<Rightarrow>
                    (case truediv f1 core_count of
                       Raise e \<Rightarrow> (Raise e, w2)
                     | Return r1 \<Rightarrow>
                    (case float_of_str five of
                       Raise e \<Rightarrow> (Raise e, w2)
                     | Return f5 \<Rightarrow>
                    (case truediv f5 core_count of
                       Raise e \<Rightarrow> (Raise e, w2)
                     | Return r5 \<Rightarrow>
                    (case float_of_str fifteen of
                       Raise e \<Rightarrow> (Raise e, w2)
                     | Return f15 \<Rightarrow>
                    (case truediv f15 core_count of
                       Raise e \<Rightarrow> (Raise e, w2)
                     | Return r15 \<Rightarrow>
                         (Return [(1, r1), (5, r5), (15, r15)], w2))))))))))"

section \<open>Executors for the concrete runs\<close>

text \<open>
  \<open>kernel_stub readonly linked coerce\<close> is an executor over a table of tunables. A query
  returns the stored bytes with status 0, or nothing with status 255 when the key is
  unknown. An assignment \<^verbatim>\<open>key=value\<close> fails with status 255 when the key is unknown or
  listed in \<open>readonly\<close>; otherwise it stores \<open>coerce value\<close> under the key and under
  every key \<open>linked\<close> to it, with status 0. Any other command is a missing program.
  \<open>missing_program\<close> is the executor of a machine without the \<^verbatim>\<open>sysctl\<close> binary.
  \<open>firmware_stub\<close> and \<open>cmd_stub\<close> stand for the collaborators of the secure-boot query
  over a world made of the commands run so far and the output \<^verbatim>\<open>mokutil\<close> would print.
  \<open>loadavg_file\<close> and \<open>core_count_stub\<close> stand for \<^verbatim>\<open>read_file\<close> on a machine whose
  \<^verbatim>\<open>/proc/loadavg\<close> has the given content, and for \<^verbatim>\<open>get_core_count\<close>.
\<close>

definition kernel_stub :: "str list \<Rightarrow> (str \<times> str) list \<Rightarrow> (str \<Rightarrow> str) \<Rightarrow> (str \<times> bytes) list executor" where
  "kernel_stub readonly linked coerce args capture_output store =
     (case args of
        [prog, opt, arg] \<Rightarrow>
          if prog = ''sysctl'' \<and> opt = ''-nb'' then
            (case map_of store arg of
               None \<Rightarrow> (Return \<lparr>stdout = [], returncode = 255\<rparr>, store)
             | Some v \<Rightarrow> (Return \<lparr>stdout = v, returncode = 0\<rparr>, store))
          else if prog = ''sysctl'' \<and> opt = ''-wq'' then
            (let k = takeWhile (\<lambda>c. c \<noteq> CHR ''='') arg;
                 v = drop 1 (dropWhile (\<lambda>c. c \<noteq> CHR ''='') arg) in
             if k \<in> set readonly \<or> map_of store k = None
             then (Return \<lparr>stdout = [], returncode = 255\<rparr>, store)
             else (Return \<lparr>stdout = [], returncode = 0\<rparr>,
                   foldl (\<lambda>m k'. AList.update k' (coerce v) m) store
                     (k # map snd (filter (\<lambda>p. fst p = k) linked))))
          else (Raise FileNotFoundError, store)
      | _ \<Rightarrow> (Raise FileNotFoundError, store))"

definition missing_program :: "unit executor" where
  "missing_program args capture_output w = (Raise FileNotFoundError, w)"

definition firmware_stub :: "bool \<Rightarrow> str list \<times> str \<Rightarrow> bool result \<times> (str list \<times> str)" where
  "firmware_stub uefi w = (Return uefi, w)"

definition cmd_stub :: "str \<Rightarrow> str list \<times> str \<Rightarrow> str result \<times> (str list \<times> str)" where
  "cmd_stub command w = (Return (snd w), (fst w @ [command], snd w))"

definition loadavg_file :: "str \<Rightarrow> str \<Rightarrow> unit \<Rightarrow> str result \<times> unit" where
  "loadavg_file content fname w =
     (if fname = ''/proc/loadavg'' then (Return content, w) else (Raise FileNotFoundError, w))"

definition core_count_stub :: "int \<Rightarrow> unit \<Rightarrow> int result \<times> unit" where
  "core_count_stub n w = (Return n, w)"

section \<open>Auxiliary facts\<close>

lemmas stub_simps = sysctl_write_def sysctl_read_def logged_def kernel_stub_def decode_def Let_def

subsection \<open>The snapshot and the write loop\<close>

lemma alist_update_fresh:
  "k \<notin> fst ` set al \<Longrightarrow> AList.update k v al = al @ [(k, v)]"
  by (induction al) auto

lemma snapshot_read_each:
  "distinct keys \<Longrightarrow> set keys \<inter> fst ` set acc = {} \<Longrightarrow>
   snapshot run keys acc w =
     (case read_each run keys w of
        (Raise e, w1) \<Rightarrow> (Raise e, w1)
      | (Return vs, w1) \<Rightarrow> (Return (acc @ zip keys (map PyStr vs)), w1))"
proof (induction keys arbitrary: acc w)
  case Nil
  then show ?case by simp
next
  case (Cons k keys)
  show ?case
  proof (cases "sysctl_read run k w")
    case (Pair r w1)
    show ?thesis
    proof (cases r)
      case (Raise e)
      with Pair show ?thesis by simp
    next
      case (Return v)
      have fresh: "k \<notin> fst ` set acc" using Cons.prems by auto
      have d: "distinct keys" using Cons.prems by simp
      have dj: "set keys \<inter> fst ` set (acc @ [(k, PyStr v)]) = {}"
        using Cons.prems by auto
      have "snapshot run (k # keys) acc w = snapshot run keys (acc @ [(k, PyStr v)]) w1"
        using Pair Return fresh by (simp add: alist_update_fresh)
      also have "\<dots> = (case read_each run keys w1 of
          (Raise e, w2) \<Rightarrow> (Raise e, w2)
        | (Return vs, w2) \<Rightarrow> (Return ((acc @ [(k, PyStr v)]) @ zip keys (map PyStr vs)), w2))"
        by (rule Cons.IH [OF d dj])
      finally show ?thesis
        using Pair Return by (simp split: prod.splits result.splits)
    qed
  qed
qed

lemma read_each_length:
  "read_each run keys w = (Return vs, w1) \<Longrightarrow> length vs = length keys"
  by (induction keys arbitrary: vs w) (auto split: prod.splits result.splits)

lemma snapshot_distinct:
  assumes "distinct keys" and "snapshot run keys [] w = (Return orig, w0)"
  shows "\<exists>vs. read_each run keys w = (Return vs, w0) \<and> orig = zip keys (map PyStr vs)
           \<and> map fst orig = keys"
proof -
  have "snapshot run keys [] w =
     (case read_each run keys w of
        (Raise e, w1) \<Rightarrow> (Raise e, w1)
      | (Return vs, w1) \<Rightarrow> (Return ([] @ zip keys (map PyStr vs)), w1))"
    using assms(1) by (intro snapshot_read_each) simp_all
  with assms(2) obtain vs where rd: "read_each run keys w = (Return vs, w0)"
    and o: "orig = zip keys (map PyStr vs)"
    by (auto split: prod.splits result.splits)
  from rd have "length vs = length keys" by (rule read_each_length)
  with o have "map fst orig = keys" by simp
  with rd o show ?thesis by blast
qed

lemma snapshot_keys:
  "snapshot run ks acc w = (Return orig, w1) \<Longrightarrow> fst ` set orig = set ks \<union> fst ` set acc"
proof (induction ks arbitrary: acc w)
  case Nil
  then show ?case by simp
next
  case (Cons k ks)
  then obtain v w0 where "sysctl_read run k w = (Return v, w0)"
    and "snapshot run ks (AList.update k (PyStr v) acc) w0 = (Return orig, w1)"
    by (auto split: prod.splits result.splits)
  then have "fst ` set orig = set ks \<union> fst ` set (AList.update k (PyStr v) acc)"
    using Cons.IH by blast
  then show ?case by (auto simp: AList.dom_update)
qed

lemma apply_writes_no_revert:
  "apply_writes run orig False items w = write_loop run items w"
  by (induction items arbitrary: w) (auto split: prod.splits result.splits)

lemma apply_writes_after:
  "writes_succeed run pre w w1 \<Longrightarrow>
   apply_writes run orig revert (pre @ items) w = apply_writes run orig revert items w1"
  by (induction pre arbitrary: w) (auto split: prod.splits result.splits bool.splits)

subsection \<open>The calls each function makes\<close>

lemma read_log:
  "sysctl_read (logged run) name s = (r, s') \<Longrightarrow> fst s' = fst s @ [query name]"
  by (auto simp: sysctl_read_def logged_def split: prod.splits result.splits)

lemma write_log:
  assumes "to_str val = Return target"
    and "sysctl_read (logged run) name s = (Return cur, s1)" and "cur \<noteq> target"
  shows "\<exists>later. fst (snd (sysctl_write (logged run) name val s))
                  = fst s @ query name # assign name target # later"
proof -
  have l1: "fst s1 = fst s @ [query name]" using assms(2) by (rule read_log)
  obtain r2 s2 where st: "logged run [''sysctl'', ''-wq'', name @ ''='' @ target] False s1 = (r2, s2)"
    by (cases "logged run [''sysctl'', ''-wq'', name @ ''='' @ target] False s1")
  then have l2: "fst s2 = fst s @ [query name, assign name target]"
    using l1 by (auto simp: logged_def split: prod.splits)
  obtain r3 s3 where rd: "sysctl_read (logged run) name s2 = (r3, s3)"
    by (cases "sysctl_read (logged run) name s2")
  then have l3: "fst s3 = fst s @ [query name, assign name target, query name]"
    using l2 read_log by fastforce
  have "snd (sysctl_write (logged run) name val s) = s2 \<or> snd (sysctl_write (logged run) name val s) = s3"
    using assms st rd by (auto simp: sysctl_write_def split: result.splits)
  with l2 l3 show ?thesis by auto
qed

lemma about_keys_read: "k \<in> set keys \<Longrightarrow> about_keys keys ([''sysctl'', ''-nb'', k], True)"
  by simp

lemma about_keys_set:
  "k \<in> set keys \<Longrightarrow> about_keys keys ([''sysctl'', ''-wq'', k @ ''='' @ v], False)"
proof -
  assume "k \<in> set keys"
  moreover have "prefix (k @ ''='') (k @ ''='' @ v)" by simp
  ultimately have "list_ex (\<lambda>k'. prefix (k' @ ''='') (k @ ''='' @ v)) keys"
    unfolding list_ex_iff by blast
  then show ?thesis by simp
qed

lemma about_keys_mono: "about_keys ks c \<Longrightarrow> set ks \<subseteq> set ks' \<Longrightarrow> about_keys ks' c"
  by (cases c) (auto simp: list_ex_iff split: list.splits)

lemma calls_about_refl: "calls_about keys s s"
  by (simp add: calls_about_def)

lemma calls_about_trans:
  "calls_about keys s s1 \<Longrightarrow> calls_about keys s1 s2 \<Longrightarrow> calls_about keys s s2"
  by (auto simp: calls_about_def)

lemma calls_about_mono:
  "calls_about ks s s' \<Longrightarrow> set ks \<subseteq> set ks' \<Longrightarrow> calls_about ks' s s'"
  unfolding calls_about_def list_all_iff using about_keys_mono by blast

lemma read_calls:
  "sysctl_read (logged run) k s = (r, s') \<Longrightarrow> k \<in> set keys \<Longrightarrow> calls_about keys s s'"
  by (auto simp: sysctl_read_def logged_def calls_about_def about_keys_read
           split: prod.splits result.splits)

lemma write_calls:
  assumes "sysctl_write (logged run) k v s = (r, s')" and "k \<in> set keys"
  shows "calls_about keys s s'"
proof (cases "to_str v")
  case (Raise e)
  with assms(1) have "s' = s" by (simp add: sysctl_write_def)
  then show ?thesis by (simp add: calls_about_refl)
next
  case conv: (Return target)
  obtain r1 s1 where rd: "sysctl_read (logged run) k s = (r1, s1)" by (cases "sysctl_read (logged run) k s")
  have c1: "calls_about keys s s1" using rd assms(2) by (rule read_calls)
  show ?thesis
  proof (cases r1)
    case (Raise e)
    with rd conv assms(1) c1 show ?thesis by (simp add: sysctl_write_def)
  next
    case (Return cur)
    show ?thesis
    proof (cases "cur = target")
      case True
      with rd Return conv assms(1) c1 show ?thesis by (simp add: sysctl_write_def)
    next
      case False
      obtain r2 s2 where st: "logged run [''sysctl'', ''-wq'', k @ ''='' @ target] False s1 = (r2, s2)"
        by (cases "logged run [''sysctl'', ''-wq'', k @ ''='' @ target] False s1")
      have "about_keys keys ([''sysctl'', ''-wq'', k @ ''='' @ target], False)"
        using assms(2) by (rule about_keys_set)
      then have "calls_about keys s1 s2"
        using st by (auto simp: logged_def calls_about_def simp del: about_keys.simps split: prod.splits)
      with c1 have c2: "calls_about keys s s2" by (rule calls_about_trans)
      obtain r3 s3 where rd3: "sysctl_read (logged run) k s2 = (r3, s3)"
        by (cases "sysctl_read (logged run) k s2")
      have "calls_about keys s2 s3" using rd3 assms(2) by (rule read_calls)
      with c2 have c3: "calls_about keys s s3" by (rule calls_about_trans)
      from rd Return False st rd3 conv assms(1) c2 c3 show ?thesis
        by (auto simp: sysctl_write_def split: result.splits if_splits)
    qed
  qed
qed

lemma snapshot_calls:
  "snapshot (logged run) ks acc s = (r, s') \<Longrightarrow> set ks \<subseteq> set keys \<Longrightarrow> calls_about keys s s'"
proof (induction ks arbitrary: acc s)
  case Nil
  then show ?case by (simp add: calls_about_refl)
next
  case (Cons k ks)
  obtain r1 s1 where rd: "sysctl_read (logged run) k s = (r1, s1)" by (cases "sysctl_read (logged run) k s")
  have "k \<in> set keys" using Cons.prems(2) by simp
  with rd have c1: "calls_about keys s s1" by (rule read_calls)
  show ?case
  proof (cases r1)
    case (Raise e)
    with rd Cons.prems(1) c1 show ?thesis by simp
  next
    case (Return v)
    with rd Cons.prems(1) have "snapshot (logged run) ks (AList.update k (PyStr v) acc) s1 = (r, s')"
      by simp
    moreover have "set ks \<subseteq> set keys" using Cons.prems(2) by simp
    ultimately have "calls_about keys s1 s'" by (rule Cons.IH)
    with c1 show ?thesis by (rule calls_about_trans)
  qed
qed

lemma write_loop_calls:
  "write_loop (logged run) items s = (r, s') \<Longrightarrow> fst ` set items \<subseteq> set keys \<Longrightarrow>
   calls_about keys s s'"
proof (induction items arbitrary: s)
  case Nil
  then show ?case by (simp add: calls_about_refl)
next
  case (Cons kv items)
  obtain k v where kv: "kv = (k, v)" by (cases kv)
  obtain r1 s1 where wr: "sysctl_write (logged run) k v s = (r1, s1)"
    by (cases "sysctl_write (logged run) k v s")
  have "k \<in> set keys" using Cons.prems(2) kv by auto
  with wr have c1: "calls_about keys s s1" by (rule write_calls)
  have rest: "fst ` set items \<subseteq> set keys" using Cons.prems(2) by auto
  show ?case
  proof (cases r1)
    case (Raise e)
    with wr kv Cons.prems(1) c1 show ?thesis by simp
  next
    case (Return ok)
    show ?thesis
    proof (cases ok)
      case False
      with Return wr kv Cons.prems(1) c1 show ?thesis by simp
    next
      case True
      with Return wr kv Cons.prems(1) have "write_loop (logged run) items s1 = (r, s')" by simp
      then have "calls_about keys s1 s'" using rest by (rule Cons.IH)
      with c1 show ?thesis by (rule calls_about_trans)
    qed
  qed
qed

lemma apply_calls_no_revert:
  assumes "sysctl_apply (logged run) d False s = (r, s')" and "fst ` set d \<subseteq> set keys"
  shows "calls_about keys s s'"
proof -
  obtain r1 s1 where sn: "snapshot (logged run) (map fst d) [] s = (r1, s1)"
    by (cases "snapshot (logged run) (map fst d) [] s")
  have "set (map fst d) \<subseteq> set keys" using assms(2) by simp
  with sn have c1: "calls_about keys s s1" by (rule snapshot_calls)
  show ?thesis
  proof (cases r1)
    case (Raise e)
    with sn assms(1) c1 show ?thesis by simp
  next
    case (Return orig)
    with sn assms(1) have "write_loop (logged run) d s1 = (r, s')"
      by (simp add: apply_writes_no_revert)
    then have "calls_about keys s1 s'" using assms(2) by (rule write_loop_calls)
    with c1 show ?thesis by (rule calls_about_trans)
  qed
qed

lemma apply_writes_calls:
  "apply_writes (logged run) orig revert items s = (r, s') \<Longrightarrow> fst ` set items \<subseteq> set keys \<Longrightarrow>
   fst ` set orig \<subseteq> set keys \<Longrightarrow> calls_about keys s s'"
proof (induction items arbitrary: s)
  case Nil
  then show ?case by (simp add: calls_about_refl)
next
  case (Cons kv items)
  obtain k v where kv: "kv = (k, v)" by (cases kv)
  obtain r1 s1 where wr: "sysctl_write (logged run) k v s = (r1, s1)"
    by (cases "sysctl_write (logged run) k v s")
  have "k \<in> set keys" using Cons.prems(2) kv by auto
  with wr have c1: "calls_about keys s s1" by (rule write_calls)
  have rest: "fst ` set items \<subseteq> set keys" using Cons.prems(2) by auto
  show ?case
  proof (cases r1)
    case (Raise e)
    with wr kv Cons.prems(1) c1 show ?thesis by simp
  next
    case (Return ok)
    show ?thesis
    proof (cases ok)
      case True
      with Return wr kv Cons.prems(1)
      have "apply_writes (logged run) orig revert items s1 = (r, s')" by simp
      then have "calls_about keys s1 s'" using rest Cons.prems(3) by (rule Cons.IH)
      with c1 show ?thesis by (rule calls_about_trans)
    next
      case False
      show ?thesis
      proof (cases revert)
        case False
        with \<open>\<not> ok\<close> Return wr kv Cons.prems(1) c1 show ?thesis by simp
      next
        case True
        obtain r2 s2 where nested: "sysctl_apply (logged run) orig False s1 = (r2, s2)"
          by (cases "sysctl_apply (logged run) orig False s1")
        have "calls_about keys s1 s2" using nested Cons.prems(3) by (rule apply_calls_no_revert)
        with c1 have c2: "calls_about keys s s2" by (rule calls_about_trans)
        have "s' = s2"
          using Cons.prems(1) kv wr Return \<open>\<not> ok\<close> True nested
          by (simp del: sysctl_apply.simps split: result.splits)
        with c2 show ?thesis by simp
      qed
    qed
  qed
qed

lemma apply_calls:
  assumes "sysctl_apply (logged run) d revert s = (r, s')"
  shows "calls_about (map fst d) s s'"
proof -
  obtain r1 s1 where sn: "snapshot (logged run) (map fst d) [] s = (r1, s1)"
    by (cases "snapshot (logged run) (map fst d) [] s")
  have c1: "calls_about (map fst d) s s1" using sn by (rule snapshot_calls) simp
  show ?thesis
  proof (cases r1)
    case (Raise e)
    with sn assms c1 show ?thesis by simp
  next
    case (Return orig)
    have "fst ` set orig = set (map fst d) \<union> fst ` set ([] :: dict)"
      using sn unfolding Return by (rule snapshot_keys)
    then have ko: "fst ` set orig \<subseteq> set (map fst d)" by simp
    have kd: "fst ` set d \<subseteq> set (map fst d)" by simp
    have "apply_writes (logged run) orig revert d s1 = (r, s')"
      using sn Return assms by simp
    then have "calls_about (map fst d) s1 s'" using kd ko by (rule apply_writes_calls)
    with c1 show ?thesis by (rule calls_about_trans)
  qed
qed

subsection \<open>Decimal conversion and the substring test\<close>

lemma digit_char_code: "d < 10 \<Longrightarrow> (of_char (digit_char d) :: nat) = 48 + d"
proof -
  assume "d < 10"
  then consider "d = 0" | "d = 1" | "d = 2" | "d = 3" | "d = 4" | "d = 5" | "d = 6" | "d = 7"
    | "d = 8" | "d = 9" by atomize_elim arith
  then show ?thesis by cases (simp_all add: digit_char_def)
qed

lemma str_nat_digits: "list_all is_digit (str_nat n)"
proof (induction n rule: str_nat.induct)
  case (1 n)
  show ?case
  proof (cases "n < 10")
    case True
    then show ?thesis by (simp add: str_nat.simps [of n] is_digit_def digit_char_code)
  next
    case False
    have "n mod 10 < 10" by simp
    then have "is_digit (digit_char (n mod 10))" by (simp add: is_digit_def digit_char_code)
    with False "1.IH" show ?thesis by (simp add: str_nat.simps [of n])
  qed
qed

lemma str_nat_value: "decimal_value (str_nat n) = n"
proof (induction n rule: str_nat.induct)
  case (1 n)
  show ?case
  proof (cases "n < 10")
    case True
    then show ?thesis by (simp add: str_nat.simps [of n] decimal_value_def digit_char_code)
  next
    case False
    have "n mod 10 < 10" by simp
    then have d: "(of_char (digit_char (n mod 10)) :: nat) = 48 + n mod 10" by (rule digit_char_code)
    have "decimal_value (str_nat n) = 10 * decimal_value (str_nat (n div 10)) + n mod 10"
      using False d by (simp add: str_nat.simps [of n] decimal_value_def)
    with False "1.IH" show ?thesis by simp
  qed
qed

lemma str_nat_nonempty: "str_nat n \<noteq> []"
  by (simp add: str_nat.simps [of n])

lemma digit_char_zero: "d < 10 \<Longrightarrow> digit_char d = CHR ''0'' \<Longrightarrow> d = 0"
proof -
  assume lt: "d < 10" and z: "digit_char d = CHR ''0''"
  from lt have "(of_char (digit_char d) :: nat) = 48 + d" by (rule digit_char_code)
  with z show "d = 0" by simp
qed

lemma str_nat_leading_zero: "hd (str_nat n) = CHR ''0'' \<Longrightarrow> n = 0"
proof (induction n rule: str_nat.induct)
  case (1 n)
  show ?case
  proof (cases "n < 10")
    case True
    with "1.prems" have "digit_char n = CHR ''0''" by (simp add: str_nat.simps [of n])
    with True show ?thesis by (rule digit_char_zero)
  next
    case False
    then have "hd (str_nat n) = hd (str_nat (n div 10))"
      by (simp add: str_nat.simps [of n] str_nat_nonempty)
    with "1.prems" "1.IH" False have "n div 10 = 0" by simp
    with False show ?thesis by simp
  qed
qed

lemma str_nat_zero: "str_nat 0 = ''0''"
  by (simp add: str_nat.simps digit_char_def)

lemma str_nat_decimal_form: "decimal_form (str_nat n) n"
proof -
  have "hd (str_nat n) = CHR ''0'' \<longrightarrow> str_nat n = ''0''"
    using str_nat_leading_zero [of n] str_nat_zero by auto
  then show ?thesis
    unfolding decimal_form_def using str_nat_nonempty str_nat_digits str_nat_value by blast
qed

lemma decimal_value_snoc:
  "decimal_value (xs @ [c]) = 10 * decimal_value xs + (of_char c - 48)"
  by (simp add: decimal_value_def)

lemma foldl_decimal_ge: "(a::nat) \<le> foldl (\<lambda>a c. 10 * a + (of_char c - 48)) a t"
proof (induction t arbitrary: a)
  case Nil
  show ?case by simp
next
  case (Cons c t)
  have "a \<le> 10 * a + (of_char c - 48)" by simp
  also have "\<dots> \<le> foldl (\<lambda>a c. 10 * a + (of_char c - 48)) (10 * a + (of_char c - 48)) t"
    by (rule Cons.IH)
  finally show ?case by simp
qed

lemma decimal_value_pos:
  assumes "s \<noteq> []" and "list_all is_digit s" and "hd s \<noteq> CHR ''0''"
  shows "1 \<le> decimal_value s"
proof -
  obtain c t where s: "s = c # t" using assms(1) by (cases s) auto
  have "(of_char c :: nat) \<noteq> 48"
  proof
    assume "(of_char c :: nat) = 48"
    then have "(of_char c :: nat) = of_char CHR ''0''" by simp
    then have "c = CHR ''0''" by (simp only: of_char_eq_iff)
    with assms(3) s show False by simp
  qed
  moreover have "48 \<le> (of_char c :: nat)" using assms(2) s by (simp add: is_digit_def)
  ultimately have "1 \<le> (of_char c :: nat) - 48" by simp
  also have "\<dots> \<le> foldl (\<lambda>a c. 10 * a + (of_char c - 48)) (of_char c - 48) t"
    by (rule foldl_decimal_ge)
  finally show ?thesis by (simp add: decimal_value_def s)
qed

lemma digit_char_of_digit:
  assumes "is_digit c"
  shows "(of_char c :: nat) - 48 < 10 \<and> digit_char (of_char c - 48) = c"
proof -
  let ?d = "(of_char c :: nat) - 48"
  have lt: "?d < 10" using assms by (auto simp: is_digit_def)
  then have "(of_char (digit_char ?d) :: nat) = 48 + ?d" by (rule digit_char_code)
  also have "\<dots> = of_char c" using assms by (simp add: is_digit_def)
  finally have "digit_char ?d = c" by (simp only: of_char_eq_iff)
  with lt show ?thesis by simp
qed

lemma decimal_form_unique: "decimal_form s m \<Longrightarrow> s = str_nat m"
proof (induction s arbitrary: m rule: rev_induct)
  case Nil
  then show ?case by (simp add: decimal_form_def)
next
  case (snoc c xs)
  from snoc.prems have dig: "list_all is_digit xs" and dc: "is_digit c"
    and val: "decimal_value (xs @ [c]) = m"
    and lead: "hd (xs @ [c]) = CHR ''0'' \<longrightarrow> xs @ [c] = ''0''"
    by (simp_all add: decimal_form_def)
  let ?d = "(of_char c :: nat) - 48"
  have d: "?d < 10" and dchar: "digit_char ?d = c"
    using digit_char_of_digit [OF dc] by simp_all
  have m: "m = 10 * decimal_value xs + ?d" using val by (simp add: decimal_value_snoc)
  show ?case
  proof (cases "xs = []")
    case True
    then have md: "m = ?d" using m by (simp add: decimal_value_def)
    with d have "m < 10" by simp
    then have "str_nat m = [digit_char m]" by (simp add: str_nat.simps [of m])
    also have "\<dots> = [c]" using md dchar by simp
    finally show ?thesis using True by simp
  next
    case False
    have nz: "hd xs \<noteq> CHR ''0''"
    proof
      assume "hd xs = CHR ''0''"
      with False have "hd (xs @ [c]) = CHR ''0''" by simp
      with lead have "xs @ [c] = ''0''" by simp
      then have "length (xs @ [c]) = 1" by simp
      with False show False by simp
    qed
    have "decimal_form xs (decimal_value xs)"
      using False dig nz by (simp add: decimal_form_def)
    then have xs: "xs = str_nat (decimal_value xs)" by (rule snoc.IH)
    have "1 \<le> decimal_value xs" using False dig nz by (rule decimal_value_pos)
    then have big: "\<not> m < 10" using m by simp
    have dv: "m div 10 = decimal_value xs" and md: "m mod 10 = ?d" using m d by simp_all
    have "str_nat m = str_nat (m div 10) @ [digit_char (m mod 10)]"
      using big by (simp add: str_nat.simps [of m])
    also have "\<dots> = xs @ [c]" using xs dchar by (simp only: dv md)
    finally show ?thesis by simp
  qed
qed

lemma str_int_unique:
  "0 \<le> n \<Longrightarrow> decimal_form s (nat n) \<longleftrightarrow> s = str_int n"
  using decimal_form_unique [of s "nat n"] str_nat_decimal_form [of "nat n"]
  by (auto simp: str_int_def)

lemma str_nat_short: "0 < k \<Longrightarrow> n < 10 ^ k \<Longrightarrow> length (str_nat n) \<le> k"
proof (induction n arbitrary: k rule: str_nat.induct)
  case (1 n)
  show ?case
  proof (cases "n < 10")
    case True
    with "1.prems" show ?thesis by (simp add: str_nat.simps [of n])
  next
    case False
    obtain j where k: "k = Suc j" using "1.prems"(1) by (cases k) auto
    have "j \<noteq> 0" using False "1.prems"(2) k by (cases j) auto
    then have jpos: "0 < j" by simp
    have "n div 10 < 10 ^ j" using "1.prems"(2) k by (simp add: less_mult_imp_div_less mult.commute)
    with "1.IH" False jpos have "length (str_nat (n div 10)) \<le> j" by simp
    with False k show ?thesis by (simp add: str_nat.simps [of n])
  qed
qed

lemma str_nat_long: "10 ^ k \<le> n \<Longrightarrow> k < length (str_nat n)"
proof (induction n arbitrary: k rule: str_nat.induct)
  case (1 n)
  show ?case
  proof (cases k)
    case 0
    with str_nat_nonempty [of n] show ?thesis by (cases "str_nat n") auto
  next
    case (Suc j)
    have ge: "10 \<le> n"
    proof -
      have "(10::nat) ^ 1 \<le> 10 ^ k" unfolding Suc by (rule power_increasing) simp_all
      with "1.prems" show ?thesis by simp
    qed
    have "10 ^ j \<le> n div 10"
    proof -
      have "10 * 10 ^ j \<le> n" using "1.prems" Suc by simp
      then have "(10 * 10 ^ j) div 10 \<le> n div 10" by (rule div_le_mono)
      then show ?thesis by simp
    qed
    with "1.IH" ge have "j < length (str_nat (n div 10))" by simp
    with ge Suc show ?thesis by (simp add: str_nat.simps [of n])
  qed
qed

lemma nat_abs_less_power: "\<bar>n\<bar> < 10 ^ k \<Longrightarrow> nat \<bar>n\<bar> < 10 ^ k"
proof -
  assume "\<bar>n\<bar> < 10 ^ k"
  then have "\<bar>n\<bar> < int (10 ^ k)" by simp
  then show ?thesis by linarith
qed

lemma nat_abs_ge_power: "10 ^ k \<le> \<bar>n\<bar> \<Longrightarrow> 10 ^ k \<le> nat \<bar>n\<bar>"
proof -
  assume "10 ^ k \<le> \<bar>n\<bar>"
  then have "int (10 ^ k) \<le> \<bar>n\<bar>" by simp
  then show ?thesis by linarith
qed

lemma to_str_in_range:
  assumes "\<bar>n\<bar> < 10 ^ int_max_str_digits"
  shows "to_str (PyInt n) = Return (str_int n)"
proof -
  have "0 < int_max_str_digits" by (simp add: int_max_str_digits_def)
  moreover have "nat \<bar>n\<bar> < 10 ^ int_max_str_digits" using assms by (rule nat_abs_less_power)
  ultimately have "length (str_nat (nat \<bar>n\<bar>)) \<le> int_max_str_digits" by (rule str_nat_short)
  then show ?thesis by simp
qed

lemma to_str_over_limit:
  assumes "10 ^ int_max_str_digits \<le> \<bar>n\<bar>"
  shows "to_str (PyInt n) = Raise ValueError"
proof -
  have "10 ^ int_max_str_digits \<le> nat \<bar>n\<bar>" using assms by (rule nat_abs_ge_power)
  then have "int_max_str_digits < length (str_nat (nat \<bar>n\<bar>))" by (rule str_nat_long)
  then show ?thesis by simp
qed

lemma str_in_sublist: "str_in sub s \<longleftrightarrow> (\<exists>ps ss. s = ps @ sub @ ss)"
proof (induction s)
  case Nil
  then show ?case by auto
next
  case (Cons c cs)
  have "(\<exists>ps ss. c # cs = ps @ sub @ ss) \<longleftrightarrow> prefix sub (c # cs) \<or> (\<exists>ps ss. cs = ps @ sub @ ss)"
  proof
    assume "\<exists>ps ss. c # cs = ps @ sub @ ss"
    then obtain ps ss where e: "c # cs = ps @ sub @ ss" by blast
    show "prefix sub (c # cs) \<or> (\<exists>ps ss. cs = ps @ sub @ ss)"
    proof (cases ps)
      case Nil
      with e show ?thesis by (auto simp: prefix_def)
    next
      case (Cons p ps')
      with e have "cs = ps' @ sub @ ss" by simp
      then show ?thesis by blast
    qed
  next
    assume "prefix sub (c # cs) \<or> (\<exists>ps ss. cs = ps @ sub @ ss)"
    then show "\<exists>ps ss. c # cs = ps @ sub @ ss"
    proof
      assume "prefix sub (c # cs)"
      then obtain ss where "c # cs = [] @ sub @ ss" by (auto simp: prefix_def)
      then show ?thesis by blast
    next
      assume "\<exists>ps ss. cs = ps @ sub @ ss"
      then obtain ps ss where "cs = ps @ sub @ ss" by blast
      then have "c # cs = (c # ps) @ sub @ ss" by simp
      then show ?thesis by blast
    qed
  qed
  with Cons.IH show ?case by simp
qed

subsection \<open>Floats and the pattern\<close>

lemma floor_rat_numeral: "\<lfloor>numeral a / numeral b :: rat\<rfloor> = numeral a div numeral b"
  by (metis floor_divide_of_int_eq of_int_numeral)

lemma floor_rat_one_numeral: "\<lfloor>1 / numeral b :: rat\<rfloor> = 1 div numeral b"
  by (metis floor_divide_of_int_eq of_int_numeral of_int_1)

lemma ceiling_rat_numeral: "\<lceil>numeral a / numeral b :: rat\<rceil> = - (- numeral a div numeral b)"
  unfolding ceiling_def
  by (metis divide_minus_left floor_divide_of_int_eq of_int_neg_numeral of_int_numeral)

lemmas float_simps = round_binary64_def round_mag_def floor_log2_def bit_length.simps pow2_def
  round_even_def Let_def floor_rat_numeral floor_rat_one_numeral ceiling_rat_numeral

lemmas parse_simps = float_of_str_def float_of_int_def decimal_value_def is_digit_def

lemma bit_length_bounds: "0 < n \<Longrightarrow> 2 ^ (bit_length n - 1) \<le> n \<and> n < 2 ^ bit_length n"
proof (induction n rule: bit_length.induct)
  case (1 n)
  show ?case
  proof (cases "n div 2 = 0")
    case True
    with "1.prems" have "n = 1" by (cases n) auto
    then show ?thesis by (simp add: bit_length.simps)
  next
    case False
    then have pos: "0 < n div 2" by simp
    have ih: "2 ^ (bit_length (n div 2) - 1) \<le> n div 2 \<and> n div 2 < 2 ^ bit_length (n div 2)"
      using "1.IH" "1.prems" pos by simp
    have bl: "bit_length n = Suc (bit_length (n div 2))"
      using "1.prems" by (simp add: bit_length.simps [of n])
    have "0 < bit_length (n div 2)" using pos by (simp add: bit_length.simps [of "n div 2"])
    then obtain k where k: "bit_length (n div 2) = Suc k" by (cases "bit_length (n div 2)") auto
    from ih k have "2 * 2 ^ k \<le> 2 * (n div 2)" by simp
    also have "\<dots> \<le> n" by simp
    finally have lo: "2 ^ (bit_length n - 1) \<le> n" using bl k by simp
    from ih have "n div 2 + 1 \<le> 2 ^ bit_length (n div 2)" by simp
    then have "2 * (n div 2) + 2 \<le> 2 * 2 ^ bit_length (n div 2)" by simp
    moreover have "n < 2 * (n div 2) + 2" by presburger
    ultimately have "n < 2 ^ bit_length n" using bl by simp
    with lo show ?thesis by simp
  qed
qed

lemma bit_length_upper: "0 < n \<Longrightarrow> n + 1 \<le> 2 ^ bit_length n"
  using bit_length_bounds [of n] by linarith

lemma floor_log2_ge1:
  assumes "1 \<le> a"
  shows "0 \<le> floor_log2 a \<and> pow2 (floor_log2 a) \<le> a"
proof -
  let ?n = "nat \<lfloor>a\<rfloor>"
  have fl: "1 \<le> \<lfloor>a\<rfloor>" using assms by simp
  then have pos: "0 < ?n" by simp
  have b: "2 ^ (bit_length ?n - 1) \<le> ?n" using bit_length_bounds [OF pos] by simp
  have "0 < bit_length ?n" using pos by (simp add: bit_length.simps [of ?n])
  then have e: "floor_log2 a = int (bit_length ?n - 1)"
    using assms by (simp add: floor_log2_def of_nat_diff)
  have "pow2 (floor_log2 a) = 2 ^ (bit_length ?n - 1)" by (simp add: e pow2_def)
  also have "\<dots> = of_nat (2 ^ (bit_length ?n - 1))" by simp
  also have "\<dots> \<le> of_nat ?n" using b by (simp only: of_nat_le_iff)
  also have "\<dots> = of_int \<lfloor>a\<rfloor>" using fl by simp
  also have "\<dots> \<le> a" by simp
  finally show ?thesis using e by simp
qed

lemma floor_log2_bounds:
  assumes "0 < a"
  shows "pow2 (floor_log2 a) \<le> a \<and> a < pow2 (floor_log2 a + 1)"
proof (cases "1 \<le> a")
  case True
  let ?n = "nat \<lfloor>a\<rfloor>"
  have fl: "1 \<le> \<lfloor>a\<rfloor>" using True by simp
  then have pos: "0 < ?n" by simp
  have "0 < bit_length ?n" using pos by (simp add: bit_length.simps [of ?n])
  then have e: "floor_log2 a + 1 = int (bit_length ?n)"
    using True by (simp add: floor_log2_def)
  have "?n + 1 \<le> 2 ^ bit_length ?n" by (rule bit_length_upper [OF pos])
  then have "(of_nat (?n + 1) :: rat) \<le> of_nat (2 ^ bit_length ?n)" by (simp only: of_nat_le_iff)
  then have "of_int \<lfloor>a\<rfloor> + 1 \<le> (2::rat) ^ bit_length ?n" using fl by simp
  moreover have "a < of_int \<lfloor>a\<rfloor> + 1" by linarith
  ultimately have "a < pow2 (floor_log2 a + 1)" by (simp add: e pow2_def)
  with floor_log2_ge1 [OF True] show ?thesis by simp
next
  case False
  define z where "z = 1 / a"
  have z1: "1 < z" using False assms by (simp add: z_def)
  have az: "a = 1 / z" by (simp add: z_def)
  let ?m = "nat (\<lceil>z\<rceil> - 1)"
  have c2: "2 \<le> \<lceil>z\<rceil>" using z1 by linarith
  then have pos: "0 < ?m" by simp
  define k where "k = bit_length ?m"
  have kpos: "0 < k" using pos by (simp add: k_def bit_length.simps [of ?m])
  have b: "2 ^ (k - 1) \<le> ?m \<and> ?m < 2 ^ k" unfolding k_def by (rule bit_length_bounds [OF pos])
  have e: "floor_log2 a = - int k" using False by (simp add: floor_log2_def k_def z_def)
  have "?m + 1 \<le> 2 ^ k" unfolding k_def by (rule bit_length_upper [OF pos])
  then have "(of_nat (?m + 1) :: rat) \<le> of_nat (2 ^ k)" by (simp only: of_nat_le_iff)
  then have "of_int \<lceil>z\<rceil> \<le> (2::rat) ^ k" using c2 by simp
  moreover have "z \<le> of_int \<lceil>z\<rceil>" by simp
  ultimately have zk: "z \<le> 2 ^ k" by linarith
  have lo: "pow2 (floor_log2 a) \<le> a"
  proof -
    have "1 / 2 ^ k \<le> 1 / z" using zk z1 by (simp add: frac_le)
    moreover have "pow2 (floor_log2 a) = 1 / 2 ^ k" using kpos by (simp add: e pow2_def)
    ultimately show ?thesis by (simp only: az [symmetric])
  qed
  have mm: "(of_nat ?m :: rat) = of_int \<lceil>z\<rceil> - 1" using c2 by simp
  have pp: "(of_nat (2 ^ (k - 1)) :: rat) = 2 ^ (k - 1)" by simp
  have "(of_nat (2 ^ (k - 1)) :: rat) \<le> of_nat ?m" using b by (simp only: of_nat_le_iff)
  then have "(2::rat) ^ (k - 1) \<le> of_int \<lceil>z\<rceil> - 1" by (simp only: mm pp)
  moreover have "of_int \<lceil>z\<rceil> - 1 < z" by linarith
  ultimately have kz: "2 ^ (k - 1) < z" by linarith
  have hi: "a < pow2 (floor_log2 a + 1)"
  proof -
    have "1 / z < 1 / 2 ^ (k - 1)" using kz by (simp add: frac_less2)
    moreover have "pow2 (floor_log2 a + 1) = 1 / 2 ^ (k - 1)"
    proof (cases "k = 1")
      case True
      then show ?thesis by (simp add: e pow2_def)
    next
      case False
      with kpos have "nat (int k - 1) = k - 1" and "\<not> 0 \<le> 1 - int k" by auto
      then show ?thesis by (simp add: e pow2_def)
    qed
    ultimately show ?thesis by (simp only: az [symmetric])
  qed
  from lo hi show ?thesis by simp
qed

lemma round_even_ge_floor: "\<lfloor>x\<rfloor> \<le> round_even x"
  by (simp add: round_even_def Let_def)

lemma round_even_close: "\<bar>of_int (round_even x) - x\<bar> \<le> 1 / 2"
proof -
  have "of_int \<lfloor>x\<rfloor> \<le> x" and "x < of_int \<lfloor>x\<rfloor> + 1" by linarith+
  then show ?thesis by (auto simp: round_even_def Let_def abs_le_iff)
qed

lemma round_mag_close:
  assumes "0 < a" and "round_mag a = Some y"
  shows "\<bar>y - a\<bar> \<le> pow2 (max (floor_log2 a) (- 1022) - 52) / 2"
proof -
  let ?ulp = "pow2 (max (floor_log2 a) (- 1022) - 52)"
  have up: "0 < ?ulp" by (simp add: pow2_def)
  have y: "y = of_int (round_even (a / ?ulp)) * ?ulp"
    using assms by (auto simp: round_mag_def Let_def split: if_splits)
  have "y - a = (of_int (round_even (a / ?ulp)) - a / ?ulp) * ?ulp"
    using up by (simp add: y left_diff_distrib)
  then have "\<bar>y - a\<bar> = \<bar>of_int (round_even (a / ?ulp)) - a / ?ulp\<bar> * ?ulp"
    using up by (simp add: abs_mult)
  also have "\<dots> \<le> (1 / 2) * ?ulp"
    using up round_even_close [of "a / ?ulp"] by (intro mult_right_mono) simp_all
  finally show ?thesis by simp
qed

lemma round_mag_ge1:
  assumes "1 \<le> a" and "round_mag a = Some y"
  shows "0 < y"
proof -
  let ?e = "max (floor_log2 a) (- 1022)"
  let ?ulp = "pow2 (?e - 52)"
  have fl: "0 \<le> floor_log2 a" and lo: "pow2 (floor_log2 a) \<le> a"
    using floor_log2_ge1 [OF assms(1)] by simp_all
  have e: "?e = floor_log2 a" using fl by simp
  have up: "0 < ?ulp" by (simp add: pow2_def)
  have "pow2 (floor_log2 a) = 2 ^ 52 * pow2 (floor_log2 a - 52)"
  proof (cases "52 \<le> floor_log2 a")
    case True
    then have "nat (floor_log2 a) = 52 + nat (floor_log2 a - 52)" by simp
    then have "(2::rat) ^ nat (floor_log2 a) = 2 ^ 52 * 2 ^ nat (floor_log2 a - 52)"
      by (simp only: power_add)
    with True fl show ?thesis by (simp add: pow2_def)
  next
    case False
    define p :: rat where "p = 2 ^ nat (floor_log2 a)"
    define q :: rat where "q = 2 ^ nat (52 - floor_log2 a)"
    have "52 = nat (floor_log2 a) + nat (52 - floor_log2 a)" using False fl by simp
    then have "(2::rat) ^ 52 = p * q"
      unfolding p_def q_def by (simp only: power_add [symmetric])
    moreover have "q \<noteq> 0" by (simp add: q_def)
    ultimately have "p = 2 ^ 52 * (1 / q)" by (simp only: field_simps) simp
    moreover have "pow2 (floor_log2 a) = p" using fl by (simp add: pow2_def p_def)
    moreover have "pow2 (floor_log2 a - 52) = 1 / q" using False by (simp add: pow2_def q_def)
    ultimately show ?thesis by (simp only:)
  qed
  with lo e have "2 ^ 52 * ?ulp \<le> a" by simp
  then have "2 ^ 52 \<le> a / ?ulp" using up by (simp add: pos_le_divide_eq)
  then have "(1::rat) \<le> a / ?ulp" by simp
  then have f: "1 \<le> \<lfloor>a / ?ulp\<rfloor>" by simp
  have m: "1 \<le> round_even (a / ?ulp)"
    by (rule order_trans [OF f round_even_ge_floor])
  have "y = of_int (round_even (a / ?ulp)) * ?ulp"
    using assms by (auto simp: round_mag_def Let_def split: if_splits)
  moreover have "(0::rat) < of_int (round_even (a / ?ulp))" using m by simp
  ultimately show ?thesis using up by simp
qed

lemma float_of_int_nonzero:
  assumes "float_of_int i = Return fc" and "i \<noteq> 0"
  shows "\<exists>t y. fc = Finite t y \<and> y \<noteq> 0"
proof -
  have a: "(1::rat) \<le> \<bar>of_int i\<bar>"
  proof -
    have "1 \<le> \<bar>i\<bar>" using assms(2) by simp
    then have "(of_int 1 :: rat) \<le> of_int \<bar>i\<bar>" by (simp only: of_int_le_iff)
    then show ?thesis by simp
  qed
  from assms(1) obtain y where r: "round_mag \<bar>of_int i\<bar> = Some y" and fc: "fc = Finite (i < 0) y"
    by (auto simp: float_of_int_def split: option.splits)
  from round_mag_ge1 [OF a r] fc show ?thesis by simp
qed

lemma float_div_finite: "y \<noteq> 0 \<Longrightarrow> \<exists>r. float_div a (Finite t y) = Return r"
  by (cases a) simp_all

lemma unicode_spaces_lead: "u \<in> set unicode_spaces \<Longrightarrow> u \<noteq> [] \<and> 128 \<le> (of_char (hd u) :: nat)"
  unfolding unicode_spaces_def by auto

lemma numchar_ascii: "numchar c \<Longrightarrow> (of_char c :: nat) < 128"
  by (auto simp: numchar_def is_digit_def)

lemma numchar_space_len:
  assumes "numchar c"
  shows "space_len (c # t) = 0"
proof -
  have "\<not> prefix u (c # t)" if "u \<in> set unicode_spaces" for u
  proof
    assume p: "prefix u (c # t)"
    from that have ne: "u \<noteq> []" and lead: "128 \<le> (of_char (hd u) :: nat)"
      using unicode_spaces_lead by blast+
    from p ne have "hd u = c" by (cases u) auto
    with lead numchar_ascii [OF assms] show False by simp
  qed
  then have "filter (\<lambda>u. prefix u (c # t)) unicode_spaces = []"
    by (simp add: filter_empty_conv)
  moreover have "\<not> ascii_space c" using assms by (auto simp: numchar_def is_digit_def ascii_space_def)
  ultimately show ?thesis by (simp add: space_len_def)
qed

lemma ascii_space_len: "ascii_space c \<Longrightarrow> space_len (c # t) = 1"
  by (simp add: space_len_def)

lemma ascii_space_not_numchar: "ascii_space c \<Longrightarrow> \<not> numchar c"
  by (auto simp: numchar_def is_digit_def ascii_space_def)

lemma skip_spaces_ascii:
  "list_all ascii_space sp \<Longrightarrow> t = [] \<or> numchar (hd t) \<Longrightarrow> skip_spaces (sp @ t) = t"
proof (induction sp)
  case Nil
  have "space_len t = 0"
  proof (cases t)
    case Nil
    then show ?thesis by (simp add: space_len_def)
  next
    case (Cons c cs)
    with Nil.prems(2) show ?thesis by (simp add: numchar_space_len)
  qed
  then show ?case by (simp add: skip_spaces.simps [of t])
next
  case (Cons c sp)
  then have "space_len (c # sp @ t) = 1" by (simp add: ascii_space_len)
  then have "skip_spaces ((c # sp) @ t) = skip_spaces (sp @ t)"
    by (simp add: skip_spaces.simps [of "c # sp @ t"])
  with Cons show ?case by simp
qed

lemma span_numchar:
  "list_all numchar xs \<Longrightarrow> t = [] \<or> \<not> numchar (hd t) \<Longrightarrow>
   takeWhile numchar (xs @ t) = xs \<and> dropWhile numchar (xs @ t) = t"
  by (induction xs) (auto simp: takeWhile_eq_Nil_iff dropWhile_eq_self_iff)

lemma match_at_fields:
  assumes "list_all ascii_space sp0"
    and "one \<noteq> []" and "list_all numchar one"
    and "sp1 \<noteq> []" and "list_all ascii_space sp1"
    and "five \<noteq> []" and "list_all numchar five"
    and "sp2 \<noteq> []" and "list_all ascii_space sp2"
    and "fifteen \<noteq> []" and "list_all numchar fifteen"
    and "rest = [] \<or> \<not> numchar (hd rest)"
  shows "match_at (sp0 @ one @ sp1 @ five @ sp2 @ fifteen @ rest) = Some (one, five, fifteen)"
proof -
  let ?t5 = "fifteen @ rest"
  let ?t4 = "sp2 @ ?t5"
  let ?t3 = "five @ ?t4"
  let ?t2 = "sp1 @ ?t3"
  let ?t1 = "one @ ?t2"
  have n1: "numchar (hd ?t1)" using assms(2,3) by (cases one) auto
  have n3: "numchar (hd ?t3)" using assms(6,7) by (cases five) auto
  have n5: "numchar (hd ?t5)" using assms(10,11) by (cases fifteen) auto
  have b2: "\<not> numchar (hd ?t2)"
    using assms(4,5) by (cases sp1) (auto simp: ascii_space_not_numchar)
  have b4: "\<not> numchar (hd ?t4)"
    using assms(8,9) by (cases sp2) (auto simp: ascii_space_not_numchar)
  have s1: "skip_spaces (sp0 @ ?t1) = ?t1" using assms(1) n1 by (intro skip_spaces_ascii) simp_all
  have f1: "takeWhile numchar ?t1 = one \<and> dropWhile numchar ?t1 = ?t2"
    using assms(3) b2 by (intro span_numchar) simp_all
  have s3: "skip_spaces ?t2 = ?t3" using assms(5) n3 by (intro skip_spaces_ascii) simp_all
  have f3: "takeWhile numchar ?t3 = five \<and> dropWhile numchar ?t3 = ?t4"
    using assms(7) b4 by (intro span_numchar) simp_all
  have s5: "skip_spaces ?t4 = ?t5" using assms(9) n5 by (intro skip_spaces_ascii) simp_all
  have f5: "takeWhile numchar ?t5 = fifteen" using span_numchar [OF assms(11,12)] by simp
  have d2: "?t3 \<noteq> ?t2"
  proof
    assume "?t3 = ?t2"
    then have "length ?t3 = length ?t2" by (rule arg_cong)
    with assms(4) show False by simp
  qed
  have d4: "?t5 \<noteq> ?t4"
  proof
    assume "?t5 = ?t4"
    then have "length ?t5 = length ?t4" by (rule arg_cong)
    with assms(8) show False by simp
  qed
  show ?thesis
    unfolding match_at_def Let_def s1 using f1 s3 f3 s5 f5 d2 d4 assms(2,6,10) by simp
qed

lemma re_search_match: "match_at s = Some m \<Longrightarrow> re_search s = Some m"
  by (cases s) simp_all

lemma takeWhile_all: "list_all P (takeWhile P xs)"
  by (induction xs) simp_all

lemma match_at_groups:
  "match_at s = Some (a, b, c) \<Longrightarrow> list_all numchar a \<and> list_all numchar b \<and> list_all numchar c"
  by (auto simp: match_at_def Let_def takeWhile_all split: if_splits)

lemma re_search_groups:
  "re_search s = Some (a, b, c) \<Longrightarrow> list_all numchar a \<and> list_all numchar b \<and> list_all numchar c"
proof (induction s)
  case Nil
  then show ?case using match_at_groups by simp
next
  case (Cons x xs)
  show ?case
  proof (cases "match_at (x # xs)")
    case None
    with Cons show ?thesis by simp
  next
    case (Some m)
    with Cons.prems have "match_at (x # xs) = Some (a, b, c)" by simp
    then show ?thesis by (rule match_at_groups)
  qed
qed

section \<open>The claims\<close>



text \<open>
  C2. For every key and target value (\<open>target\<close>, the value after conversion to a string):
  when the value read first differs from the target and the assignment exits with status
  zero, \<^verbatim>\<open>sysctl_write\<close> returns \<open>True\<close> if the value read afterwards equals the target
  and \<open>False\<close> if it differs; in both cases it returns, it does not raise. The witness
  runs both cases: a table that clamps what is stored, and a table that stores what it is
  given.
\<close>

theorem write_verified:
  assumes "to_str val = Return target"
    and "sysctl_read run name w = (Return cur, w1)" and "cur \<noteq> target"
    and "run [''sysctl'', ''-wq'', name @ ''='' @ target] False w1 = (Return p, w2)"
    and "returncode p = 0"
    and "sysctl_read run name w2 = (Return new, w3)"
  shows "sysctl_write run name val w = (Return (new = target), w3)"
  using assms by (simp add: sysctl_write_def)

theorem write_verified_witness:
  "sysctl_write (kernel_stub [] [] (\<lambda>v. ''65535'')) ''net.core.somaxconn'' (PyStr ''70000'')
     [(''net.core.somaxconn'', ''128'')]
   = (Return False, [(''net.core.somaxconn'', ''65535'')])
   \<and> sysctl_write (kernel_stub [] [] id) ''net.core.somaxconn'' (PyStr ''70000'')
     [(''net.core.somaxconn'', ''128'')]
   = (Return True, [(''net.core.somaxconn'', ''70000'')])"
proof -
  let ?clamp = "kernel_stub [] [] (\<lambda>v. ''65535'')"
  let ?plain = "kernel_stub [] [] id"
  let ?k = "''net.core.somaxconn''"
  have c: "to_str (PyStr ''70000'') = Return ''70000''" by simp
  have r1: "sysctl_read ?clamp ?k [(?k, ''128'')] = (Return ''128'', [(?k, ''128'')])"
    by (simp add: stub_simps)
  have ne: "''128'' \<noteq> ''70000''" by simp
  have st: "?clamp [''sysctl'', ''-wq'', ?k @ ''='' @ ''70000''] False [(?k, ''128'')]
            = (Return \<lparr>stdout = [], returncode = 0\<rparr>, [(?k, ''65535'')])"
    by (simp add: stub_simps)
  have rc: "returncode \<lparr>stdout = [], returncode = 0\<rparr> = 0" by simp
  have r2: "sysctl_read ?clamp ?k [(?k, ''65535'')] = (Return ''65535'', [(?k, ''65535'')])"
    by (simp add: stub_simps)
  have a: "sysctl_write ?clamp ?k (PyStr ''70000'') [(?k, ''128'')]
           = (Return (''65535'' = ''70000''), [(?k, ''65535'')])"
    by (rule write_verified [OF c r1 ne st rc r2])
  have r1': "sysctl_read ?plain ?k [(?k, ''128'')] = (Return ''128'', [(?k, ''128'')])"
    by (simp add: stub_simps)
  have st': "?plain [''sysctl'', ''-wq'', ?k @ ''='' @ ''70000''] False [(?k, ''128'')]
            = (Return \<lparr>stdout = [], returncode = 0\<rparr>, [(?k, ''70000'')])"
    by (simp add: stub_simps)
  have r2': "sysctl_read ?plain ?k [(?k, ''70000'')] = (Return ''70000'', [(?k, ''70000'')])"
    by (simp add: stub_simps)
  have b: "sysctl_write ?plain ?k (PyStr ''70000'') [(?k, ''128'')]
           = (Return (''70000'' = ''70000''), [(?k, ''70000'')])"
    by (rule write_verified [OF c r1' ne st' rc r2'])
  from a b show ?thesis by simp
qed

text \<open>
  C3, as amended. \<^verbatim>\<open>sysctl_read\<close> propagates an exception that the executor raises (a
  missing program, for one), with the world the executor left. When the executor returns
  a completed process, the result of \<^verbatim>\<open>sysctl_read\<close> is that of decoding the captured
  output, whatever the exit status is: a non-zero status of the query is not a failure of
  \<^verbatim>\<open>sysctl_read\<close>.
\<close>

theorem read_outcome:
  "(run [''sysctl'', ''-nb'', name] True w = (Raise e, w1)
      \<longrightarrow> sysctl_read run name w = (Raise e, w1))
   \<and> (run [''sysctl'', ''-nb'', name] True w = (Return tmp, w1)
      \<longrightarrow> sysctl_read run name w = (decode (stdout tmp), w1))"
  by (simp add: sysctl_read_def)

theorem read_outcome_witness:
  "sysctl_read missing_program ''kernel.hostname'' () = (Raise FileNotFoundError, ())
   \<and> sysctl_read (kernel_stub [] [] id) ''kernel.hostname'' [(''kernel.hostname'', ''vyos'')]
       = (Return ''vyos'', [(''kernel.hostname'', ''vyos'')])"
proof -
  have a: "missing_program [''sysctl'', ''-nb'', ''kernel.hostname''] True ()
           = (Raise FileNotFoundError, ())"
    by (simp add: missing_program_def)
  have b: "kernel_stub [] [] id [''sysctl'', ''-nb'', ''kernel.hostname''] True
             [(''kernel.hostname'', ''vyos'')]
           = (Return \<lparr>stdout = ''vyos'', returncode = 0\<rparr>, [(''kernel.hostname'', ''vyos'')])"
    by (simp add: kernel_stub_def)
  from read_outcome [of missing_program "''kernel.hostname''" "()" FileNotFoundError "()"] a
  have "sysctl_read missing_program ''kernel.hostname'' () = (Raise FileNotFoundError, ())"
    by blast
  moreover
  from read_outcome [of "kernel_stub [] [] id" "''kernel.hostname''"
      "[(''kernel.hostname'', ''vyos'')]" _ "[(''kernel.hostname'', ''vyos'')]"
      "\<lparr>stdout = ''vyos'', returncode = 0\<rparr>"] b
  have "sysctl_read (kernel_stub [] [] id) ''kernel.hostname'' [(''kernel.hostname'', ''vyos'')]
        = (decode (stdout \<lparr>stdout = ''vyos'', returncode = 0\<rparr>), [(''kernel.hostname'', ''vyos'')])"
    by blast
  ultimately show ?thesis by (simp add: decode_def)
qed

text \<open>
  The claim as stated fails on a query that exits with a non-zero status: for an unknown
  key the executor reports status 255 and an empty output, and \<^verbatim>\<open>sysctl_read\<close> returns
  the empty string.
\<close>

theorem read_nonzero_exit_counterexample:
  "kernel_stub [] [] id [''sysctl'', ''-nb'', ''no.such.key''] True []
     = (Return \<lparr>stdout = [], returncode = 255\<rparr>, [])
   \<and> sysctl_read (kernel_stub [] [] id) ''no.such.key'' [] = (Return [], [])"
  by (simp add: stub_simps)

text \<open>
  C4. For every key and value: when the value read equals the target (the value after
  conversion to a string), \<^verbatim>\<open>sysctl_write\<close> returns \<open>True\<close>, the only call the executor
  has received is the query of the key, and the world is the one that query left: no
  assignment is sent.
\<close>

theorem write_noop:
  assumes "to_str val = Return target"
    and "sysctl_read (logged run) name (seen, w) = (Return target, s1)"
  shows "sysctl_write (logged run) name val (seen, w) = (Return True, s1)
       \<and> s1 = (seen @ [query name], snd (run [''sysctl'', ''-nb'', name] True w))"
  using assms
  by (auto simp: sysctl_write_def sysctl_read_def logged_def split: prod.splits result.splits)

theorem write_noop_witness:
  "sysctl_write (logged (kernel_stub [] [] id)) ''net.ipv4.ip_forward'' (PyStr ''1'')
     ([], [(''net.ipv4.ip_forward'', ''1'')])
   = (Return True, ([query ''net.ipv4.ip_forward''], [(''net.ipv4.ip_forward'', ''1'')]))"
proof -
  have c: "to_str (PyStr ''1'') = Return ''1''" by simp
  have h: "sysctl_read (logged (kernel_stub [] [] id)) ''net.ipv4.ip_forward''
             ([], [(''net.ipv4.ip_forward'', ''1'')])
           = (Return ''1'',
              ([query ''net.ipv4.ip_forward''], [(''net.ipv4.ip_forward'', ''1'')]))"
    by (simp add: stub_simps)
  from write_noop [OF c h] show ?thesis by simp
qed

text \<open>
  C5. For every tunable set applied with \<^verbatim>\<open>revert=False\<close>: when the writes of the items
  \<open>pre\<close> succeed and the write of the next key returns \<open>False\<close> leaving the world \<open>w2\<close>,
  \<^verbatim>\<open>sysctl_apply\<close> returns \<open>False\<close> in \<open>w2\<close> itself, so nothing is run after the failing
  write. With \<^verbatim>\<open>revert=False\<close> the loop of \<^verbatim>\<open>sysctl_apply\<close> is \<open>write_loop\<close>, which has
  no rollback, whatever the snapshot is: the nested call of a rollback never makes a
  nested call of its own. The witness is the run of the claim: the single key A refuses
  the assignment, and the executor receives the two queries and the assignment only.
\<close>

theorem apply_no_revert:
  assumes "d = pre @ (k, v) # post"
    and "snapshot run (map fst d) [] w = (Return orig, w0)"
    and "writes_succeed run pre w0 w1"
    and "sysctl_write run k v w1 = (Return False, w2)"
  shows "sysctl_apply run d False w = (Return False, w2)
       \<and> apply_writes run snap False items w' = write_loop run items w'"
proof -
  have "apply_writes run orig False (pre @ (k, v) # post) w0
        = apply_writes run orig False ((k, v) # post) w1"
    using assms(3) by (rule apply_writes_after)
  also have "\<dots> = (Return False, w2)" using assms(4) by simp
  finally show ?thesis using assms(1,2) by (simp add: apply_writes_no_revert)
qed

theorem apply_no_revert_witness:
  "sysctl_apply (logged (kernel_stub [''A''] [] id)) [(''A'', PyStr ''1'')] False
     ([], [(''A'', ''0'')])
   = (Return False, ([query ''A'', query ''A'', assign ''A'' ''1''], [(''A'', ''0'')]))"
proof -
  let ?run = "logged (kernel_stub [''A''] [] id)"
  have h1: "[(''A'', PyStr ''1'')] = [] @ (''A'', PyStr ''1'') # []" by simp
  have h2: "snapshot ?run (map fst [(''A'', PyStr ''1'')]) [] ([], [(''A'', ''0'')])
            = (Return [(''A'', PyStr ''0'')], ([query ''A''], [(''A'', ''0'')]))"
    by (simp add: stub_simps)
  have h3: "writes_succeed ?run [] ([query ''A''], [(''A'', ''0'')]) ([query ''A''], [(''A'', ''0'')])"
    by simp
  have h4: "sysctl_write ?run ''A'' (PyStr ''1'') ([query ''A''], [(''A'', ''0'')])
            = (Return False, ([query ''A'', query ''A'', assign ''A'' ''1''], [(''A'', ''0'')]))"
    by (simp add: stub_simps)
  from apply_no_revert [OF h1 h2 h3 h4] show ?thesis by blast
qed

text \<open>
  C6, as amended. For every tunable set with distinct keys applied with \<^verbatim>\<open>revert=True\<close>
  where the write of some key fails: the snapshot that the rollback restores has every key
  of the set, in the order the caller supplied them (also the keys after the failing one,
  which were never attempted); the rollback reads every key of the set again and then
  writes the snapshot values in that order, stopping at the first write that fails; and
  every call the executor receives during \<^verbatim>\<open>sysctl_apply\<close>, rollback included, is a
  query or an assignment of a key of the set.
\<close>

theorem rollback_whole_set:
  assumes "distinct (map fst d)" and "d = pre @ (k, v) # post"
    and "snapshot run (map fst d) [] w = (Return orig, w0)"
    and "writes_succeed run pre w0 w1"
    and "sysctl_write run k v w1 = (Return False, w2)"
  shows "map fst orig = map fst d
       \<and> sysctl_apply run d True w =
           (case snapshot run (map fst d) [] w2 of
              (Raise e, w3) \<Rightarrow> (Raise e, w3)
            | (Return again, w3) \<Rightarrow>
                (case write_loop run orig w3 of
                   (Raise e, w4) \<Rightarrow> (Raise e, w4)
                 | (Return rolled_back, w4) \<Rightarrow> (Return False, w4)))
       \<and> calls_about (map fst d) (seen, u) (snd (sysctl_apply (logged exec) d revert (seen, u)))"
proof -
  have keys: "map fst orig = map fst d"
    using snapshot_distinct [OF assms(1,3)] by blast
  have "apply_writes run orig True (pre @ (k, v) # post) w0
        = apply_writes run orig True ((k, v) # post) w1"
    using assms(4) by (rule apply_writes_after)
  also have "\<dots> = (case sysctl_apply run orig False w2 of
                       (Raise e, w3) \<Rightarrow> (Raise e, w3)
                     | (Return rolled_back, w3) \<Rightarrow> (Return False, w3))"
    using assms(5) by (simp del: sysctl_apply.simps)
  also have "\<dots> = (case snapshot run (map fst d) [] w2 of
              (Raise e, w3) \<Rightarrow> (Raise e, w3)
            | (Return again, w3) \<Rightarrow>
                (case write_loop run orig w3 of
                   (Raise e, w4) \<Rightarrow> (Raise e, w4)
                 | (Return rolled_back, w4) \<Rightarrow> (Return False, w4)))"
    by (simp add: keys apply_writes_no_revert split: prod.splits result.splits)
  finally have main: "sysctl_apply run d True w = (case snapshot run (map fst d) [] w2 of
              (Raise e, w3) \<Rightarrow> (Raise e, w3)
            | (Return again, w3) \<Rightarrow>
                (case write_loop run orig w3 of
                   (Raise e, w4) \<Rightarrow> (Raise e, w4)
                 | (Return rolled_back, w4) \<Rightarrow> (Return False, w4)))"
    using assms(2,3) by simp
  have "calls_about (map fst d) (seen, u) (snd (sysctl_apply (logged exec) d revert (seen, u)))"
    by (rule apply_calls [of exec d revert "(seen, u)" "fst (sysctl_apply (logged exec) d revert (seen, u))"])
       simp
  with keys main show ?thesis by blast
qed

theorem rollback_whole_set_witness:
  "calls_about [''A'', ''B'', ''C''] ([], [(''A'', ''0''), (''B'', ''0''), (''C'', ''7'')])
     (snd (sysctl_apply (logged (kernel_stub [''B''] [] id))
        [(''A'', PyStr ''1''), (''B'', PyStr ''2''), (''C'', PyStr ''3'')] True
        ([], [(''A'', ''0''), (''B'', ''0''), (''C'', ''7'')])))
   \<and> sysctl_apply (kernel_stub [''B''] [] id)
        [(''A'', PyStr ''1''), (''B'', PyStr ''2''), (''C'', PyStr ''3'')] True
        [(''A'', ''0''), (''B'', ''0''), (''C'', ''7'')]
      = (case write_loop (kernel_stub [''B''] [] id)
                [(''A'', PyStr ''0''), (''B'', PyStr ''0''), (''C'', PyStr ''7'')]
                [(''A'', ''1''), (''B'', ''0''), (''C'', ''7'')] of
           (Raise e, w4) \<Rightarrow> (Raise e, w4)
         | (Return rolled_back, w4) \<Rightarrow> (Return False, w4))"
proof -
  let ?run = "kernel_stub [''B''] [] id"
  let ?d = "[(''A'', PyStr ''1''), (''B'', PyStr ''2''), (''C'', PyStr ''3'')]"
  let ?orig = "[(''A'', PyStr ''0''), (''B'', PyStr ''0''), (''C'', PyStr ''7'')]"
  let ?k0 = "[(''A'', ''0''), (''B'', ''0''), (''C'', ''7'')]"
  let ?k1 = "[(''A'', ''1''), (''B'', ''0''), (''C'', ''7'')]"
  have h1: "distinct (map fst ?d)" by simp
  have h2: "?d = [(''A'', PyStr ''1'')] @ (''B'', PyStr ''2'') # [(''C'', PyStr ''3'')]" by simp
  have h3: "snapshot ?run (map fst ?d) [] ?k0 = (Return ?orig, ?k0)" by (simp add: stub_simps)
  have h4: "writes_succeed ?run [(''A'', PyStr ''1'')] ?k0 ?k1" by (simp add: stub_simps)
  have h5: "sysctl_write ?run ''B'' (PyStr ''2'') ?k1 = (Return False, ?k1)" by (simp add: stub_simps)
  have again: "snapshot ?run (map fst ?d) [] ?k1
               = (Return [(''A'', PyStr ''1''), (''B'', PyStr ''0''), (''C'', PyStr ''7'')], ?k1)"
    by (simp add: stub_simps)
  note r = rollback_whole_set [OF h1 h2 h3 h4 h5, of "[]" ?k0 ?run True]
  from r have "calls_about (map fst ?d) ([], ?k0) (snd (sysctl_apply (logged ?run) ?d True ([], ?k0)))"
    by blast
  moreover from r have "sysctl_apply ?run ?d True ?k0 =
           (case snapshot ?run (map fst ?d) [] ?k1 of
              (Raise e, w3) \<Rightarrow> (Raise e, w3)
            | (Return again, w3) \<Rightarrow>
                (case write_loop ?run ?orig w3 of
                   (Raise e, w4) \<Rightarrow> (Raise e, w4)
                 | (Return rolled_back, w4) \<Rightarrow> (Return False, w4)))"
    by blast
  ultimately show ?thesis unfolding again by simp
qed

text \<open>
  The claim as stated fails on a set of three keys A, B, C where the write of B fails, so
  that C is never attempted. In the first run the three tunables are independent: the
  rollback still queries C twice (its own snapshot, and the comparison of the write of
  C's snapshot value). In the second run assigning A also changes C (two names of one
  tunable): the rollback assigns C its snapshot value \<^verbatim>\<open>7\<close>.
\<close>

theorem rollback_untried_key_counterexample:
  "sysctl_apply (logged (kernel_stub [''B''] [] id))
     [(''A'', PyStr ''1''), (''B'', PyStr ''2''), (''C'', PyStr ''3'')] True
     ([], [(''A'', ''0''), (''B'', ''0''), (''C'', ''7'')])
   = (Return False,
      ([query ''A'', query ''B'', query ''C'',
        query ''A'', assign ''A'' ''1'', query ''A'',
        query ''B'', assign ''B'' ''2'',
        query ''A'', query ''B'', query ''C'',
        query ''A'', assign ''A'' ''0'', query ''A'',
        query ''B'',
        query ''C''],
       [(''A'', ''0''), (''B'', ''0''), (''C'', ''7'')]))
   \<and> sysctl_apply (logged (kernel_stub [''B''] [(''A'', ''C'')] id))
     [(''A'', PyStr ''1''), (''B'', PyStr ''2''), (''C'', PyStr ''3'')] True
     ([], [(''A'', ''0''), (''B'', ''0''), (''C'', ''7'')])
   = (Return False,
      ([query ''A'', query ''B'', query ''C'',
        query ''A'', assign ''A'' ''1'', query ''A'',
        query ''B'', assign ''B'' ''2'',
        query ''A'', query ''B'', query ''C'',
        query ''A'', assign ''A'' ''0'', query ''A'',
        query ''B'',
        query ''C'', assign ''C'' ''7'', query ''C''],
       [(''A'', ''0''), (''B'', ''0''), (''C'', ''7'')]))"
  by (simp add: stub_simps)

text \<open>
  C7, as amended. For every key and every integer \<open>n\<close> of at most 4300 decimal digits
  (\<open>\<bar>n\<bar> < 10 ^ int_max_str_digits\<close>, the interpreter's default limit on the conversion
  of an integer to a string): \<^verbatim>\<open>sysctl_write\<close> converts \<open>n\<close> to the string \<open>str_int n\<close>
  and behaves on \<open>n\<close> as on that string; when the value read is \<open>str_int n\<close> it returns
  \<open>True\<close> after the query alone, and when it is anything else the next call the executor
  receives is the assignment of \<open>str_int n\<close>. The string \<open>str_int n\<close> is the decimal form
  of \<open>n\<close> and no other string is: for \<open>0 \<le> n\<close> it is the one decimal numeral of \<open>n\<close>,
  for \<open>n < 0\<close> a minus sign before the one decimal numeral of \<open>- n\<close>; for 5 it is
  \<^verbatim>\<open>5\<close>. For an integer of more digits the conversion raises \<^verbatim>\<open>ValueError\<close>, and
  \<^verbatim>\<open>sysctl_write\<close> raises it before anything is read or written.
\<close>

theorem write_int:
  "(\<bar>n\<bar> < 10 ^ int_max_str_digits \<longrightarrow>
        to_str (PyInt n) = Return (str_int n)
      \<and> sysctl_write run name (PyInt n) w = sysctl_write run name (PyStr (str_int n)) w
      \<and> (sysctl_read (logged run) name (seen, w) = (Return (str_int n), s1)
           \<longrightarrow> sysctl_write (logged run) name (PyInt n) (seen, w) = (Return True, s1))
      \<and> (sysctl_read (logged run) name (seen, w) = (Return cur, s1) \<and> cur \<noteq> str_int n
           \<longrightarrow> (\<exists>later. fst (snd (sysctl_write (logged run) name (PyInt n) (seen, w)))
                        = seen @ query name # assign name (str_int n) # later)))
   \<and> (10 ^ int_max_str_digits \<le> \<bar>n\<bar>
        \<longrightarrow> sysctl_write run name (PyInt n) w = (Raise ValueError, w))
   \<and> (0 \<le> n \<longrightarrow> (\<forall>s. decimal_form s (nat n) \<longleftrightarrow> s = str_int n))
   \<and> (n < 0 \<longrightarrow> (\<forall>s. decimal_form s (nat (- n)) \<longleftrightarrow> CHR ''-'' # s = str_int n))
   \<and> str_int 5 = ''5''"
proof -
  have pos: "0 \<le> n \<longrightarrow> (\<forall>s. decimal_form s (nat n) \<longleftrightarrow> s = str_int n)"
    using str_int_unique by blast
  have neg: "n < 0 \<longrightarrow> (\<forall>s. decimal_form s (nat (- n)) \<longleftrightarrow> CHR ''-'' # s = str_int n)"
  proof (intro impI allI)
    fix s
    assume "n < 0"
    then have "str_int n = CHR ''-'' # str_nat (nat (- n))" by (simp add: str_int_def)
    moreover have "decimal_form s (nat (- n)) \<longleftrightarrow> s = str_nat (nat (- n))"
      using decimal_form_unique [of s "nat (- n)"] str_nat_decimal_form [of "nat (- n)"] by auto
    ultimately show "decimal_form s (nat (- n)) \<longleftrightarrow> CHR ''-'' # s = str_int n" by simp
  qed
  have five: "str_int 5 = ''5''"
    by (simp add: str_int_def str_nat.simps digit_char_def)
  have over: "10 ^ int_max_str_digits \<le> \<bar>n\<bar>
        \<longrightarrow> sysctl_write run name (PyInt n) w = (Raise ValueError, w)"
  proof
    assume "10 ^ int_max_str_digits \<le> \<bar>n\<bar>"
    then have "to_str (PyInt n) = Raise ValueError" by (rule to_str_over_limit)
    then show "sysctl_write run name (PyInt n) w = (Raise ValueError, w)"
      by (simp only: sysctl_write_def result.case)
  qed
  have inside: "to_str (PyInt n) = Return (str_int n)
      \<and> sysctl_write run name (PyInt n) w = sysctl_write run name (PyStr (str_int n)) w
      \<and> (sysctl_read (logged run) name (seen, w) = (Return (str_int n), s1)
           \<longrightarrow> sysctl_write (logged run) name (PyInt n) (seen, w) = (Return True, s1))
      \<and> (sysctl_read (logged run) name (seen, w) = (Return cur, s1) \<and> cur \<noteq> str_int n
           \<longrightarrow> (\<exists>later. fst (snd (sysctl_write (logged run) name (PyInt n) (seen, w)))
                        = seen @ query name # assign name (str_int n) # later))"
    if "\<bar>n\<bar> < 10 ^ int_max_str_digits"
  proof -
    have conv: "to_str (PyInt n) = Return (str_int n)" using that by (rule to_str_in_range)
    have same: "sysctl_write run name (PyInt n) w = sysctl_write run name (PyStr (str_int n)) w"
      unfolding sysctl_write_def conv by simp
    have eq: "sysctl_read (logged run) name (seen, w) = (Return (str_int n), s1)
           \<longrightarrow> sysctl_write (logged run) name (PyInt n) (seen, w) = (Return True, s1)"
      by (simp add: sysctl_write_def conv del: to_str.simps)
    have ne: "sysctl_read (logged run) name (seen, w) = (Return cur, s1) \<and> cur \<noteq> str_int n
           \<longrightarrow> (\<exists>later. fst (snd (sysctl_write (logged run) name (PyInt n) (seen, w)))
                        = seen @ query name # assign name (str_int n) # later)"
      using write_log [OF conv, of run name "(seen, w)" cur s1] by simp
    from conv same eq ne show ?thesis by blast
  qed
  from inside over pos neg five show ?thesis by blast
qed

theorem write_int_witness:
  "sysctl_write (logged (kernel_stub [] [] id)) ''vm.swappiness'' (PyInt 5)
     ([], [(''vm.swappiness'', ''60'')])
   = (Return True,
      ([query ''vm.swappiness'', assign ''vm.swappiness'' ''5'', query ''vm.swappiness''],
       [(''vm.swappiness'', ''5'')]))
   \<and> sysctl_write (logged (kernel_stub [] [] id)) ''vm.swappiness'' (PyInt 5)
     ([], [(''vm.swappiness'', ''5'')])
   = (Return True, ([query ''vm.swappiness''], [(''vm.swappiness'', ''5'')]))
   \<and> decimal_form (str_int 5) 5"
proof -
  let ?run = "kernel_stub [] [] id"
  let ?k = "''vm.swappiness''"
  have small: "\<bar>5 :: int\<bar> < 10 ^ int_max_str_digits"
  proof -
    have "(10::int) ^ 1 \<le> 10 ^ int_max_str_digits"
      by (rule power_increasing) (simp_all add: int_max_str_digits_def)
    then show ?thesis by simp
  qed
  have five: "str_int 5 = ''5''"
    using write_int [of 5 ?run ?k "[(?k, ''60'')]" "[]"] by blast
  have "sysctl_write (logged ?run) ?k (PyInt 5) ([], [(?k, ''60'')])
        = sysctl_write (logged ?run) ?k (PyStr (str_int 5)) ([], [(?k, ''60'')])"
    using write_int [of 5 "logged ?run" ?k "([], [(?k, ''60'')])"] small by blast
  then have a: "sysctl_write (logged ?run) ?k (PyInt 5) ([], [(?k, ''60'')])
      = (Return True, ([query ?k, assign ?k ''5'', query ?k], [(?k, ''5'')]))"
    unfolding five by (simp add: stub_simps)
  have h: "sysctl_read (logged ?run) ?k ([], [(?k, ''5'')])
           = (Return (str_int 5), ([query ?k], [(?k, ''5'')]))"
    unfolding five by (simp add: stub_simps)
  have b: "sysctl_write (logged ?run) ?k (PyInt 5) ([], [(?k, ''5'')])
      = (Return True, ([query ?k], [(?k, ''5'')]))"
    using write_int [of 5 ?run ?k "[(?k, ''5'')]" "[]" "([query ?k], [(?k, ''5'')])"] small h
    by blast
  have nn: "(0::int) \<le> 5" by simp
  have "\<forall>s. decimal_form s (nat 5) \<longleftrightarrow> s = str_int 5"
    using write_int [of 5 ?run ?k "[(?k, ''60'')]" "[]"] nn by blast
  then have "decimal_form (str_int 5) (nat 5)" by blast
  then have c: "decimal_form (str_int 5) 5" by simp
  from a b c show ?thesis by simp
qed

text \<open>
  The claim as stated fails on an integer of 4301 digits: \<^verbatim>\<open>str(10 ** 4300)\<close> raises
  \<^verbatim>\<open>ValueError\<close>, so \<^verbatim>\<open>sysctl_write\<close> raises it and the executor is never called.
\<close>

theorem write_int_limit_counterexample:
  "int_max_str_digits = 4300
   \<and> to_str (PyInt (10 ^ 4300)) = Raise ValueError
   \<and> sysctl_write (logged (kernel_stub [] [] id)) ''vm.swappiness'' (PyInt (10 ^ 4300))
        ([], [(''vm.swappiness'', ''60'')])
      = (Raise ValueError, ([], [(''vm.swappiness'', ''60'')]))"
proof -
  have lim: "int_max_str_digits = 4300" by (simp only: int_max_str_digits_def)
  have "(10::int) ^ int_max_str_digits \<le> \<bar>10 ^ int_max_str_digits\<bar>" by simp
  then have "to_str (PyInt (10 ^ int_max_str_digits)) = Raise ValueError"
    by (rule to_str_over_limit)
  then have conv: "to_str (PyInt (10 ^ 4300)) = Raise ValueError" by (simp only: lim)
  have "sysctl_write (logged (kernel_stub [] [] id)) ''vm.swappiness'' (PyInt (10 ^ 4300))
        ([], [(''vm.swappiness'', ''60'')])
      = (Raise ValueError, ([], [(''vm.swappiness'', ''60'')]))"
    by (simp only: sysctl_write_def conv result.case)
  with lim conv show ?thesis by (simp only: simp_thms)
qed

text \<open>
  C8. When the pseudo-file starts (after optional white space) with three fields of
  digits and dots separated by white space, each a decimal literal, and the core count is
  a non-zero integer in the range of a float, \<^verbatim>\<open>get_load_averages\<close> returns the
  dictionary that maps 1, 5 and 15 to the first, second and third field divided by the
  core count, in float arithmetic. The witness is the run of the claim: the content
  \<^verbatim>\<open>1.0 2.0 3.0 4/400 123\<close> with two cores gives 0.5, 1.0 and 1.5.
\<close>

theorem load_averages:
  assumes "read_file ''/proc/loadavg'' w = (Return data, w1)"
    and "get_core_count w1 = (Return core_count, w2)"
    and "data = sp0 @ one @ sp1 @ five @ sp2 @ fifteen @ rest"
    and "list_all ascii_space sp0"
    and "one \<noteq> []" and "list_all numchar one"
    and "sp1 \<noteq> []" and "list_all ascii_space sp1"
    and "five \<noteq> []" and "list_all numchar five"
    and "sp2 \<noteq> []" and "list_all ascii_space sp2"
    and "fifteen \<noteq> []" and "list_all numchar fifteen"
    and "rest = [] \<or> \<not> numchar (hd rest)"
    and "float_of_str one = Return f1"
    and "float_of_str five = Return f5"
    and "float_of_str fifteen = Return f15"
    and "float_of_int core_count = Return fc" and "core_count \<noteq> 0"
  shows "\<exists>r1 r5 r15.
           float_div f1 fc = Return r1 \<and> float_div f5 fc = Return r5
         \<and> float_div f15 fc = Return r15
         \<and> get_load_averages read_file get_core_count w
             = (Return [(1, r1), (5, r5), (15, r15)], w2)"
proof -
  have "match_at data = Some (one, five, fifteen)"
    unfolding assms(3) using assms(4-15) by (rule match_at_fields)
  then have m: "re_search data = Some (one, five, fifteen)" by (rule re_search_match)
  obtain t y where fc: "fc = Finite t y" and y: "y \<noteq> 0"
    using float_of_int_nonzero [OF assms(19,20)] by blast
  obtain r1 where r1: "float_div f1 fc = Return r1" using float_div_finite [OF y] fc by blast
  obtain r5 where r5: "float_div f5 fc = Return r5" using float_div_finite [OF y] fc by blast
  obtain r15 where r15: "float_div f15 fc = Return r15" using float_div_finite [OF y] fc by blast
  have t1: "truediv f1 core_count = Return r1" using assms(19) r1 by (simp add: truediv_def)
  have t5: "truediv f5 core_count = Return r5" using assms(19) r5 by (simp add: truediv_def)
  have t15: "truediv f15 core_count = Return r15" using assms(19) r15 by (simp add: truediv_def)
  have "get_load_averages read_file get_core_count w = (Return [(1, r1), (5, r5), (15, r15)], w2)"
    unfolding get_load_averages_def Let_def
    by (simp add: assms(1,2,16,17,18) m t1 t5 t15)
  with r1 r5 r15 show ?thesis by blast
qed

theorem load_averages_witness:
  "get_load_averages (loadavg_file ''1.0 2.0 3.0 4/400 123'') (core_count_stub 2) ()
   = (Return [(1, Finite False (1 / 2)), (5, Finite False 1), (15, Finite False (3 / 2))], ())"
proof -
  have h1: "loadavg_file ''1.0 2.0 3.0 4/400 123'' ''/proc/loadavg'' ()
            = (Return ''1.0 2.0 3.0 4/400 123'', ())"
    by (simp add: loadavg_file_def)
  have h2: "core_count_stub 2 () = (Return 2, ())" by (simp add: core_count_stub_def)
  have h3: "''1.0 2.0 3.0 4/400 123'' = [] @ ''1.0'' @ '' '' @ ''2.0'' @ '' '' @ ''3.0'' @ '' 4/400 123''"
    by simp
  have sp0: "list_all ascii_space []" by simp
  have sp: "list_all ascii_space '' ''" by (simp add: ascii_space_def)
  have ne: "'' '' \<noteq> []" by simp
  have n1: "''1.0'' \<noteq> [] \<and> list_all numchar ''1.0''" by (simp add: numchar_def is_digit_def)
  have n5: "''2.0'' \<noteq> [] \<and> list_all numchar ''2.0''" by (simp add: numchar_def is_digit_def)
  have n15: "''3.0'' \<noteq> [] \<and> list_all numchar ''3.0''" by (simp add: numchar_def is_digit_def)
  have rest: "'' 4/400 123'' = [] \<or> \<not> numchar (hd '' 4/400 123'')"
    by (simp add: numchar_def is_digit_def)
  have f1: "float_of_str ''1.0'' = Return (Finite False 1)"
    by (simp add: parse_simps float_simps)
  have f5: "float_of_str ''2.0'' = Return (Finite False 2)"
    by (simp add: parse_simps float_simps)
  have f15: "float_of_str ''3.0'' = Return (Finite False 3)"
    by (simp add: parse_simps float_simps)
  have fc: "float_of_int 2 = Return (Finite False 2)"
    by (simp add: parse_simps float_simps)
  have nz: "(2::int) \<noteq> 0" by simp
  have d1: "float_div (Finite False 1) (Finite False 2) = Return (Finite False (1 / 2))"
    by (simp add: float_simps)
  have d5: "float_div (Finite False 2) (Finite False 2) = Return (Finite False 1)"
    by (simp add: float_simps)
  have d15: "float_div (Finite False 3) (Finite False 2) = Return (Finite False (3 / 2))"
    by (simp add: float_simps)
  from load_averages [where read_file = "loadavg_file ''1.0 2.0 3.0 4/400 123''"
      and get_core_count = "core_count_stub 2" and w = "()" and ?w1.0 = "()" and ?w2.0 = "()",
      OF h1 h2 h3 sp0 conjunct1 [OF n1] conjunct2 [OF n1] ne sp
      conjunct1 [OF n5] conjunct2 [OF n5] ne sp conjunct1 [OF n15] conjunct2 [OF n15] rest
      f1 f5 f15 fc nz]
  show ?thesis unfolding d1 d5 d15 by auto
qed

text \<open>
  C9. When \<^verbatim>\<open>is_uefi_system\<close> returns \<open>False\<close>, \<^verbatim>\<open>get_secure_boot_state\<close> returns
  \<open>False\<close> in the world that call left, whatever \<^verbatim>\<open>cmd\<close> is: the status query is not
  run. When it returns \<open>True\<close> and the status query returns its output, the result is
  \<open>True\<close> exactly when the output contains \<^verbatim>\<open>enabled\<close> as a substring.
\<close>

theorem secure_boot_state:
  "(is_uefi_system w = (Return False, w1)
      \<longrightarrow> get_secure_boot_state is_uefi_system cmd w = (Return False, w1))
   \<and> (is_uefi_system w = (Return True, w1) \<and> cmd ''mokutil --sb-state'' w1 = (Return out, w2)
      \<longrightarrow> get_secure_boot_state is_uefi_system cmd w
            = (Return (\<exists>ps ss. out = ps @ ''enabled'' @ ss), w2))"
  by (simp add: get_secure_boot_state_def str_in_sublist)

theorem secure_boot_state_witness:
  "get_secure_boot_state (firmware_stub False) cmd_stub ([], ''SecureBoot enabled'')
     = (Return False, ([], ''SecureBoot enabled''))
   \<and> get_secure_boot_state (firmware_stub True) cmd_stub ([], ''SecureBoot enabled'')
     = (Return True, ([''mokutil --sb-state''], ''SecureBoot enabled''))
   \<and> get_secure_boot_state (firmware_stub True) cmd_stub ([], ''SecureBoot disabled'')
     = (Return False, ([''mokutil --sb-state''], ''SecureBoot disabled''))"
proof -
  let ?on = "([], ''SecureBoot enabled'') :: str list \<times> str"
  let ?off = "([], ''SecureBoot disabled'') :: str list \<times> str"
  have a: "firmware_stub False ?on = (Return False, ?on)" by (simp add: firmware_stub_def)
  have b: "firmware_stub True ?on = (Return True, ?on)
           \<and> cmd_stub ''mokutil --sb-state'' ?on
               = (Return ''SecureBoot enabled'', ([''mokutil --sb-state''], ''SecureBoot enabled''))"
    by (simp add: firmware_stub_def cmd_stub_def)
  have c: "firmware_stub True ?off = (Return True, ?off)
           \<and> cmd_stub ''mokutil --sb-state'' ?off
               = (Return ''SecureBoot disabled'', ([''mokutil --sb-state''], ''SecureBoot disabled''))"
    by (simp add: firmware_stub_def cmd_stub_def)
  have e1: "\<exists>ps ss. ''SecureBoot enabled'' = ps @ ''enabled'' @ ss"
    using str_in_sublist [of "''enabled''" "''SecureBoot enabled''"] by simp
  have e2: "\<not> (\<exists>ps ss. ''SecureBoot disabled'' = ps @ ''enabled'' @ ss)"
    using str_in_sublist [of "''enabled''" "''SecureBoot disabled''"] by simp
  have "get_secure_boot_state (firmware_stub False) cmd_stub ?on = (Return False, ?on)"
    using secure_boot_state [of "firmware_stub False" ?on ?on cmd_stub] a by blast
  moreover have "get_secure_boot_state (firmware_stub True) cmd_stub ?on
      = (Return True, ([''mokutil --sb-state''], ''SecureBoot enabled''))"
    using secure_boot_state [of "firmware_stub True" ?on ?on cmd_stub "''SecureBoot enabled''"
        "([''mokutil --sb-state''], ''SecureBoot enabled'')"] b e1 by simp
  moreover have "get_secure_boot_state (firmware_stub True) cmd_stub ?off
      = (Return False, ([''mokutil --sb-state''], ''SecureBoot disabled''))"
    using secure_boot_state [of "firmware_stub True" ?off ?off cmd_stub "''SecureBoot disabled''"
        "([''mokutil --sb-state''], ''SecureBoot disabled'')"] c e2 by simp
  ultimately show ?thesis by blast
qed

text \<open>
  C10. On the empty tunable set \<^verbatim>\<open>sysctl_apply\<close> returns \<open>True\<close> and leaves the world
  as it was, for either value of \<^verbatim>\<open>revert\<close>; under the logging executor the log is
  unchanged, so the executor is not called at all.
\<close>

theorem apply_empty:
  "sysctl_apply run [] revert w = (Return True, w)
   \<and> sysctl_apply (logged run) [] revert (seen, w) = (Return True, (seen, w))"
  by simp

end
